theory Spec2Isabelle
  imports Main
begin

section \<open>Text helpers of the prompt\<close>

text \<open>
  The prompt of \<^verbatim>\<open>FdoSecretsPluginCLI::userAction\<close> reads from the standard input through
  a text stream and compares strings.  The stream is modelled by the text that is still to
  come: a \<^typ>\<open>string\<close> of which the reader consumes a prefix.  The stream is at its end
  when no character is left.  Characters are the ASCII ones; \<open>isSpace\<close> and \<open>toLower\<close>
  are the restrictions of \<^verbatim>\<open>QChar::isSpace\<close> and \<^verbatim>\<open>QString::toLower\<close> to them, and
  \<^verbatim>\<open>QObject::tr\<close> is the identity (the untranslated program).
\<close>

definition isSpace :: "char \<Rightarrow> bool" where
  "isSpace c \<longleftrightarrow> c \<in> set [CHR '' '', CHR 0x09, CHR 0x0A, CHR 0x0B, CHR 0x0C, CHR 0x0D]"

definition trimmed :: "string \<Rightarrow> string" where
  "trimmed s = rev (dropWhile isSpace (rev (dropWhile isSpace s)))"

definition toLowerChar :: "char \<Rightarrow> char" where
  "toLowerChar c =
     (case map_of (zip ''ABCDEFGHIJKLMNOPQRSTUVWXYZ'' ''abcdefghijklmnopqrstuvwxyz'') c of
        Some l \<Rightarrow> l
      | None \<Rightarrow> c)"

definition toLower :: "string \<Rightarrow> string" where
  "toLower s = map toLowerChar s"

text \<open>\<^verbatim>\<open>QString::split(sep)\<close> with its default behaviour: empty parts are kept.\<close>

fun split :: "char \<Rightarrow> string \<Rightarrow> string list" where
  "split sep [] = [[]]"
| "split sep (c # cs) =
     (if c = sep then [] # split sep cs
      else (case split sep cs of
              w # ws \<Rightarrow> (c # w) # ws
            | [] \<Rightarrow> [[c]]))"

text \<open>
  \<^verbatim>\<open>in >> input\<close> on a text stream: leading white space is skipped, then the characters up
  to the next white space (not consumed) or to the end of the stream are the word read.  The
  result is the word and the rest of the stream.
\<close>

definition readWord :: "string \<Rightarrow> string \<times> string" where
  "readWord s =
     (let t = dropWhile isSpace s
      in (takeWhile (\<lambda>c. \<not> isSpace c) t, dropWhile (\<lambda>c. \<not> isSpace c) t))"

definition atEnd :: "string \<Rightarrow> bool" where
  "atEnd s \<longleftrightarrow> s = []"

section \<open>The console and the interactive prompt\<close>

type_synonym entry = nat

datatype AuthDecision = Undecided | Allowed | AllowedOnce | Denied | DeniedOnce

datatype Action = Rejected | AllowSelected | AllowAll | DenyAll

text \<open>
  What the functions print.  Each constructor stands for one output statement of the source
  and keeps the data the statement formats; the message of a prompt is kept as the question
  asked.
\<close>

datatype question =
    ChooseAction
  | AllowAccess entry
  | RememberAction Action
  | ReplaceReferences

datatype out_line =
    AccessHeader
  | AccessEntry nat entry
  | RemovalHeader bool
  | RemovalEntry nat entry
  | BlankLine
  | ReferenceNotice entry nat
  | Question question "string list"
  | UnknownResponse string "string list"

record console =
  stdin :: string
  stdout :: "out_line list"

text \<open>
  The two nested loops of \<open>userAction\<close> over the alias groups: the index of the first group
  one of whose aliases, trimmed and lower-cased, equals \<open>clean\<close>.
\<close>

fun matchLoop :: "string \<Rightarrow> string list \<Rightarrow> int \<Rightarrow> int option" where
  "matchLoop clean [] i = None"
| "matchLoop clean (action # matches) i =
     (if list_ex (\<lambda>match. clean = toLower (trimmed match)) (split CHR ''|'' action)
      then Some i
      else matchLoop clean matches (i + 1))"

lemma length_dropWhile_less:
  "xs \<noteq> [] \<Longrightarrow> P (hd xs) \<Longrightarrow> length (dropWhile P xs) < length xs"
  by (cases xs) (auto intro: le_imp_less_Suc length_dropWhile_le)

lemma readWord_shorter:
  assumes "readWord s = (w, rest)" and "rest \<noteq> []"
  shows "length rest < length s"
proof -
  define t where "t = dropWhile isSpace s"
  have rest: "rest = dropWhile (\<lambda>c. \<not> isSpace c) t"
    using assms(1) by (simp add: readWord_def t_def Let_def)
  have le: "length t \<le> length s"
    by (simp add: t_def length_dropWhile_le)
  show ?thesis
  proof (cases "isSpace (hd t)")
    case True
    have "t \<noteq> []" using rest assms(2) by auto
    then have "\<not> isSpace (hd t)"
      unfolding t_def by (metis hd_dropWhile)
    with True show ?thesis by simp
  next
    case False
    have "t \<noteq> []" using rest assms(2) by auto
    with False have "length (dropWhile (\<lambda>c. \<not> isSpace c) t) < length t"
      by (intro length_dropWhile_less) auto
    with le rest show ?thesis by simp
  qed
qed

text \<open>
  The \<^verbatim>\<open>while (true)\<close> loop of \<open>userAction\<close>.  Every round reads a word; when the stream is
  at its end after the read the loop returns \<open>-1\<close>, otherwise the word is matched, and an
  unmatched word prints the notice and starts the next round.
\<close>

function userAction_loop :: "string list \<Rightarrow> string list \<Rightarrow> console \<Rightarrow> int \<times> console" where
  "userAction_loop actions matches c =
     (case readWord (stdin c) of
        (input, rest) \<Rightarrow>
          if atEnd rest then (- 1, c\<lparr>stdin := rest\<rparr>)
          else (case matchLoop (toLower (trimmed input)) matches 0 of
                  Some i \<Rightarrow> (i, c\<lparr>stdin := rest\<rparr>)
                | None \<Rightarrow>
                    userAction_loop actions matches
                      (c\<lparr>stdin := rest, stdout := stdout c @ [UnknownResponse input actions]\<rparr>)))"
  by pat_completeness auto
termination
  by (relation "measure (\<lambda>(actions, matches, c). length (stdin c))")
     (auto simp: atEnd_def dest: readWord_shorter [OF sym])

declare userAction_loop.simps [simp del]

definition userAction :: "question \<Rightarrow> string list \<Rightarrow> string list \<Rightarrow> console \<Rightarrow> int \<times> console" where
  "userAction message actions matches c =
     userAction_loop actions matches (c\<lparr>stdout := stdout c @ [Question message actions]\<rparr>)"

text \<open>
  The words that the successive rounds of the loop read from a stream, each with the stream it
  leaves, up to the round that finds the stream at its end.  The claims use them to say which
  word a returned index belongs to.
\<close>

function wordsRead :: "string \<Rightarrow> (string \<times> string) list" where
  "wordsRead s =
     (case readWord s of
        (word, rest) \<Rightarrow> if atEnd rest then [] else (word, rest) # wordsRead rest)"
  by pat_completeness auto
termination
  by (relation "measure length") (auto simp: atEnd_def dest: readWord_shorter [OF sym])

declare wordsRead.simps [simp del]

section \<open>The unlock request\<close>

text \<open>
  The decisions are the \<^verbatim>\<open>QHash<Entry*, AuthDecision>\<close> the caller passes by reference: a map
  from entries to decisions.  \<^verbatim>\<open>QHash::value\<close> gives the default-constructed decision,
  \<open>Undecided\<close>, for an entry the map does not hold.  The client and the database name are
  only printed, and are left out.  Both requests hold a \<^verbatim>\<open>LineReaderGuard\<close> while they run;
  what it does to the line reader is the pair \<open>pause\<close>, \<open>restore\<close> of the section on the line
  readers and is not part of the console.
\<close>

type_synonym decisions = "entry \<rightharpoonup> AuthDecision"

definition valueOf :: "decisions \<Rightarrow> entry \<Rightarrow> AuthDecision" where
  "valueOf decisions entry = (case decisions entry of None \<Rightarrow> Undecided | Some d \<Rightarrow> d)"

definition chooseActions :: "string list" where
  "chooseActions = [''[A]llow All'', ''[D]eny All'', ''Allow [S]elected'']"

definition chooseMatches :: "string list" where
  "chooseMatches = [''a|allow|allow all'', ''d|deny|deny all'', ''s|selected|allow selected'']"

definition yesNoActions :: "string list" where
  "yesNoActions = [''[Y]es'', ''[N]o'']"

definition yesNoMatches :: "string list" where
  "yesNoMatches = [''y|yes'', ''n|no'']"

text \<open>
  The loop over the entries after the batch choice.  The first component of the result is
  \<open>False\<close> when the loop left the function with \<^verbatim>\<open>return false\<close>; the decisions written
  before that stay in the map.
\<close>

fun unlockLoop ::
  "Action \<Rightarrow> AuthDecision \<Rightarrow> entry list \<Rightarrow> decisions \<Rightarrow> console \<Rightarrow> bool \<times> decisions \<times> console"
where
  "unlockLoop action decision [] decisions c = (True, decisions, c)"
| "unlockLoop action decision (entry # entries) decisions c =
     (if action = AllowSelected then
        (case userAction (AllowAccess entry) yesNoActions yesNoMatches c of
           (choice, c1) \<Rightarrow>
             if choice = - 1 then (False, decisions, c1)
             else unlockLoop action decision entries
                    (decisions(entry \<mapsto> (if choice \<noteq> 0 then Undecided else decision))) c1)
      else unlockLoop action decision entries (decisions(entry \<mapsto> decision)) c)"

text \<open>The loop of the branch "remember: yes": every entry not \<open>Undecided\<close> gets the decision.\<close>

fun rememberLoop :: "AuthDecision \<Rightarrow> entry list \<Rightarrow> decisions \<Rightarrow> decisions" where
  "rememberLoop decision [] decisions = decisions"
| "rememberLoop decision (entry # entries) decisions =
     rememberLoop decision entries
       (if valueOf decisions entry \<noteq> Undecided then decisions(entry \<mapsto> decision) else decisions)"

text \<open>
  \<open>requestEntriesUnlock\<close> returns its boolean result, the decisions map, the value of the
  out-parameter \<open>forFutureEntries\<close> and the console.  In the listing the counter \<open>i\<close> is never
  incremented: every entry is printed with the number 1.
\<close>

definition requestEntriesUnlock ::
  "entry list \<Rightarrow> decisions \<Rightarrow> console \<Rightarrow> bool \<times> decisions \<times> AuthDecision \<times> console"
where
  "requestEntriesUnlock entries decisions c =
     (let c1 = c\<lparr>stdout := stdout c @ [AccessHeader] @ map (AccessEntry 1) entries\<rparr>
      in case userAction ChooseAction chooseActions chooseMatches c1 of
        (choice, c2) \<Rightarrow>
          (case (if choice = 0 then Some (AllowAll, AllowedOnce)
                 else if choice = 1 then Some (DenyAll, DeniedOnce)
                 else if choice = 2 then Some (AllowSelected, AllowedOnce)
                 else None) of
             None \<Rightarrow> (False, decisions, Undecided, c2)
           | Some (action, decision) \<Rightarrow>
               (case unlockLoop action decision entries decisions c2 of
                  (ok, decisions1, c3) \<Rightarrow>
                    if \<not> ok then (False, decisions1, Undecided, c3)
                    else
                      (case userAction (RememberAction action) yesNoActions yesNoMatches c3 of
                         (choice2, c4) \<Rightarrow>
                           if choice2 = 0 then
                             (case (if action = AllowSelected then (Allowed, Undecided)
                                    else if action = AllowAll then (Allowed, Allowed)
                                    else if action = DenyAll then (Denied, Denied)
                                    else (decision, Undecided)) of
                                (decision2, future) \<Rightarrow>
                                  (True, rememberLoop decision2 entries decisions1, future, c4))
                           else if choice2 = 1 then (True, decisions1, Undecided, c4)
                           else (False, decisions1, Undecided, c4)))))"

subsection \<open>The operator's answers\<close>

text \<open>
  The choice \<open>userAction\<close> returns does not depend on what has been printed.  \<open>operatorChoice\<close>
  is the choice the loop of the prompt makes on the input \<open>s\<close>, with the input it leaves;
  \<open>entryAnswers n\<close> are the answers to \<open>n\<close> successive yes/no questions, up to the first
  answer \<open>-1\<close>.  The claims use them to say what the operator answers.
\<close>

definition operatorChoice :: "string list \<Rightarrow> string \<Rightarrow> int \<times> string" where
  "operatorChoice matches s =
     (case userAction_loop [] matches \<lparr>stdin = s, stdout = []\<rparr> of (i, c) \<Rightarrow> (i, stdin c))"

fun entryAnswers :: "nat \<Rightarrow> string \<Rightarrow> int list \<times> string" where
  "entryAnswers 0 s = ([], s)"
| "entryAnswers (Suc n) s =
     (case operatorChoice yesNoMatches s of
        (i, s') \<Rightarrow>
          if i = - 1 then ([i], s')
          else (case entryAnswers n s' of (answers, s'') \<Rightarrow> (i # answers, s'')))"

section \<open>The delete request\<close>

text \<open>
  Modelled from the spec: the store of entries, whose code (\<^verbatim>\<open>core/Entry.h\<close>,
  \<^verbatim>\<open>core/Group.h\<close>, the database) is not among the sources.  A store holds the entries
  present in it, the entries moved to its recycle mechanism and, for every entry, the entries
  its fields point at through placeholders.  The reference set of an entry is "the set of
  other entries in the same store whose fields textually reference it"; overwriting
  "rewrites every referencing entry's fields to the resolved literal value", after which the
  field holds no placeholder for that entry; "permanent removal destroys the entry;
  non-permanent removal moves it to the store's recycle mechanism".
\<close>

record store =
  present :: "entry list"
  recycled :: "entry list"
  placeholders :: "entry \<Rightarrow> entry list"

definition referencesRecursive :: "store \<Rightarrow> entry \<Rightarrow> entry list" where
  "referencesRecursive st entry =
     filter (\<lambda>r. r \<noteq> entry \<and> entry \<in> set (placeholders st r)) (present st)"

definition replaceReferencesWithValues :: "entry \<Rightarrow> entry \<Rightarrow> store \<Rightarrow> store" where
  "replaceReferencesWithValues ref entry st =
     st\<lparr>placeholders := (placeholders st)(ref := removeAll entry (placeholders st ref))\<rparr>"

definition deleteEntry :: "entry \<Rightarrow> store \<Rightarrow> store" where
  "deleteEntry entry st = st\<lparr>present := removeAll entry (present st)\<rparr>"

definition recycleEntry :: "entry \<Rightarrow> store \<Rightarrow> store" where
  "recycleEntry entry st =
     st\<lparr>present := removeAll entry (present st), recycled := recycled st @ [entry]\<rparr>"

definition confirmActions :: "string list" where
  "confirmActions = [''[A]llow'', ''[D]eny'']"

definition confirmMatches :: "string list" where
  "confirmMatches = [''a|allow'', ''d|deny'']"

definition referenceActions :: "string list" where
  "referenceActions =
     [''[O]verwrite references with values'', ''[S]kip this entry'', ''[D]elete anyway'']"

definition referenceMatches :: "string list" where
  "referenceMatches = [''o|overwrite'', ''s|skip'', ''d|delete'']"

text \<open>\<open>confirmDeleteEntries\<close> is true exactly when the operator chose "Allow".\<close>

definition confirmDeleteEntries :: "entry list \<Rightarrow> bool \<Rightarrow> console \<Rightarrow> bool \<times> console" where
  "confirmDeleteEntries entries permanent c =
     (let c1 = c\<lparr>stdout := stdout c @ [RemovalHeader permanent] @ map (RemovalEntry 1) entries
                                @ [BlankLine]\<rparr>
      in case userAction ChooseAction confirmActions confirmMatches c1 of
        (choice, c2) \<Rightarrow> (choice = 0, c2))"

text \<open>
  The first loop of \<open>requestEntriesRemove\<close>, over the entries of the batch: it collects
  \<open>selectedEntries\<close>.  The result is \<open>None\<close> when the loop left the function with
  \<^verbatim>\<open>return 0\<close>.  The test that the references are not empty comes before the references of
  the batch are taken out of them.
\<close>

fun selectLoop ::
  "entry list \<Rightarrow> bool \<Rightarrow> entry list \<Rightarrow> entry list \<Rightarrow> store \<Rightarrow> console
     \<Rightarrow> entry list option \<times> store \<times> console"
where
  "selectLoop batch permanent [] selectedEntries st c = (Some selectedEntries, st, c)"
| "selectLoop batch permanent (entry # entries) selectedEntries st c =
     (if permanent \<and> referencesRecursive st entry \<noteq> [] then
        (let references = foldl (\<lambda>refs e. removeAll e refs) (referencesRecursive st entry) batch;
             c1 = c\<lparr>stdout := stdout c @ [ReferenceNotice entry (length references)]\<rparr>
         in case userAction ReplaceReferences referenceActions referenceMatches c1 of
           (choice, c2) \<Rightarrow>
             if choice = 0 then
               selectLoop batch permanent entries (selectedEntries @ [entry])
                 (foldl (\<lambda>s ref. replaceReferencesWithValues ref entry s) st references) c2
             else if choice = 1 then selectLoop batch permanent entries selectedEntries st c2
             else if choice = 2 then
               selectLoop batch permanent entries (selectedEntries @ [entry]) st c2
             else (None, st, c2))
      else selectLoop batch permanent entries (selectedEntries @ [entry]) st c)"

text \<open>The second loop: every selected entry is destroyed, or recycled.\<close>

definition removeLoop :: "bool \<Rightarrow> entry list \<Rightarrow> store \<Rightarrow> store" where
  "removeLoop permanent selectedEntries st =
     foldl (\<lambda>s entry. if permanent then deleteEntry entry s else recycleEntry entry s)
       st selectedEntries"

text \<open>
  \<open>requestEntriesRemove\<close>, with the setting \<open>confirmDeleteItem\<close> as a parameter.  It returns
  the count, the store and the console.
\<close>

definition requestEntriesRemove ::
  "bool \<Rightarrow> entry list \<Rightarrow> bool \<Rightarrow> store \<Rightarrow> console \<Rightarrow> nat \<times> store \<times> console"
where
  "requestEntriesRemove confirmDeleteItem entries permanent st c =
     (if entries = [] then (0, st, c)
      else
        (case (if confirmDeleteItem then confirmDeleteEntries entries permanent c
               else (False, c)) of
           (confirmed, c1) \<Rightarrow>
             if confirmed then (0, st, c1)
             else
               (case selectLoop entries permanent entries [] st c1 of
                  (None, st1, c2) \<Rightarrow> (0, st1, c2)
                | (Some selectedEntries, st1, c2) \<Rightarrow>
                    (length selectedEntries, removeLoop permanent selectedEntries st1, c2))))"

section \<open>The line readers\<close>

text \<open>
  \<^verbatim>\<open>cli/LineReader.h\<close>.  A reader is modelled by the lines of the standard input that are
  still to come (the stream is at its end when there is none), the number of slots the reader
  has connected to the signal \<open>activated\<close> of its socket notifier, for the readline reader
  whether readline's callback handler is installed, and whether the process has been aborted.
  What a reader emits and prints is collected in order.
\<close>

datatype reader_output =
  EmitReadLine string | EmitFinished | PrintPrompt | PrintNewline | Abort

record reader =
  m_input :: "string list"
  connections :: nat
  handler :: bool
  aborted :: bool

datatype backend = Simple | Readline

datatype reader_event = Activated | Pause | Restore

text \<open>
  \<^verbatim>\<open>m_notifier.disconnect(this)\<close> takes off the notifier the connections whose receiver is the
  reader.  Both readers connect their slot with the three-argument \<^verbatim>\<open>connect\<close>, which makes
  the notifier itself the receiver, so the call finds no connection to take off and the slots
  stay connected.
\<close>

definition disconnect :: "reader \<Rightarrow> reader" where
  "disconnect r = r"

subsection \<open>The simple reader\<close>

definition SimpleLineReader_pause :: "reader \<Rightarrow> reader \<times> reader_output list" where
  "SimpleLineReader_pause r = (disconnect r, [PrintNewline])"

definition SimpleLineReader_restore :: "reader \<Rightarrow> reader \<times> reader_output list" where
  "SimpleLineReader_restore r = (r\<lparr>connections := connections r + 1\<rparr>, [PrintPrompt])"

text \<open>The slot that \<open>restore\<close> connects: the lambda of \<^verbatim>\<open>SimpleLineReader::restore\<close>.\<close>

definition SimpleLineReader_activated :: "reader \<Rightarrow> reader \<times> reader_output list" where
  "SimpleLineReader_activated r =
     (case m_input r of
        [] \<Rightarrow> (disconnect r, [EmitFinished])
      | current # rest \<Rightarrow> (r\<lparr>m_input := rest\<rparr>, [EmitReadLine current, PrintPrompt]))"

subsection \<open>The readline reader\<close>

text \<open>
  \<open>handleLine\<close> takes the handler away first; a null line calls \<^verbatim>\<open>disconnect\<close> and emits
  \<open>finished\<close>, any other line is emitted and the handler is installed again.
\<close>

definition handleLine :: "string option \<Rightarrow> reader \<Rightarrow> reader \<times> reader_output list" where
  "handleLine line r =
     (case line of
        None \<Rightarrow> (disconnect (r\<lparr>handler := False\<rparr>), [EmitFinished])
      | Some l \<Rightarrow> (r\<lparr>handler := True\<rparr>, [EmitReadLine l, PrintPrompt]))"

definition ReadlineLineReader_pause :: "reader \<Rightarrow> reader \<times> reader_output list" where
  "ReadlineLineReader_pause r = ((disconnect r)\<lparr>handler := False\<rparr>, [])"

definition ReadlineLineReader_restore :: "reader \<Rightarrow> reader \<times> reader_output list" where
  "ReadlineLineReader_restore r =
     (r\<lparr>handler := True, connections := connections r + 1\<rparr>, [PrintPrompt])"

text \<open>
  The slot that \<open>restore\<close> connects is \<^verbatim>\<open>rl_callback_read_char\<close> of GNU readline, taken at the
  granularity of whole lines: with a handler installed it hands the next line of the input, or
  the null line at the end of the input, to \<^verbatim>\<open>s_readLine\<close>, which calls \<open>handleLine\<close>; with
  no handler installed readline aborts the process.
\<close>

definition rl_callback_read_char :: "reader \<Rightarrow> reader \<times> reader_output list" where
  "rl_callback_read_char r =
     (if handler r then
        (case m_input r of
           [] \<Rightarrow> handleLine None r
         | line # rest \<Rightarrow> handleLine (Some line) (r\<lparr>m_input := rest\<rparr>))
      else (r\<lparr>aborted := True\<rparr>, [Abort]))"

subsection \<open>Events of a reader\<close>

text \<open>
  \<open>pause\<close> and \<open>restore\<close> are the virtual functions that \<^verbatim>\<open>LineReaderGuard\<close> calls.  When
  the notifier fires, every connected slot is called in turn.  An aborted process does
  nothing more.  \<open>run\<close> feeds a sequence of events to a reader; \<open>newReader\<close> is the state the
  constructors leave, which call \<open>restore\<close>.
\<close>

fun pause :: "backend \<Rightarrow> reader \<Rightarrow> reader \<times> reader_output list" where
  "pause Simple r = SimpleLineReader_pause r"
| "pause Readline r = ReadlineLineReader_pause r"

fun restore :: "backend \<Rightarrow> reader \<Rightarrow> reader \<times> reader_output list" where
  "restore Simple r = SimpleLineReader_restore r"
| "restore Readline r = ReadlineLineReader_restore r"

fun slot :: "backend \<Rightarrow> reader \<Rightarrow> reader \<times> reader_output list" where
  "slot Simple r = SimpleLineReader_activated r"
| "slot Readline r = rl_callback_read_char r"

fun activated :: "backend \<Rightarrow> nat \<Rightarrow> reader \<Rightarrow> reader \<times> reader_output list" where
  "activated b 0 r = (r, [])"
| "activated b (Suc n) r =
     (if aborted r then (r, [])
      else (case slot b r of
              (r1, out1) \<Rightarrow> (case activated b n r1 of (r2, out2) \<Rightarrow> (r2, out1 @ out2))))"

definition step :: "backend \<Rightarrow> reader_event \<Rightarrow> reader \<Rightarrow> reader \<times> reader_output list" where
  "step b ev r =
     (if aborted r then (r, [])
      else (case ev of
              Activated \<Rightarrow> activated b (connections r) r
            | Pause \<Rightarrow> pause b r
            | Restore \<Rightarrow> restore b r))"

fun run :: "backend \<Rightarrow> reader_event list \<Rightarrow> reader \<Rightarrow> reader \<times> reader_output list" where
  "run b [] r = (r, [])"
| "run b (ev # evs) r =
     (case step b ev r of
        (r1, out1) \<Rightarrow> (case run b evs r1 of (r2, out2) \<Rightarrow> (r2, out1 @ out2)))"


section \<open>Properties of the prompt\<close>

lemma isSpace_toLowerChar: "isSpace (toLowerChar c) = isSpace c"
  unfolding isSpace_def toLowerChar_def by (simp split: option.splits)

lemma dropWhile_toLower: "dropWhile isSpace (toLower s) = toLower (dropWhile isSpace s)"
  by (induction s) (simp_all add: toLower_def isSpace_toLowerChar)

lemma trimmed_toLower: "trimmed (toLower s) = toLower (trimmed s)"
proof -
  have "rev (toLower s) = toLower (rev s)" for s
    by (simp add: toLower_def rev_map)
  then show ?thesis
    by (simp add: trimmed_def dropWhile_toLower)
qed

lemma readWord_parts:
  assumes "readWord s = (w, rest)"
  shows "\<exists>pre. s = pre @ w @ rest \<and> (\<forall>c\<in>set pre. isSpace c) \<and> (\<forall>c\<in>set w. \<not> isSpace c)"
proof -
  let ?t = "dropWhile isSpace s"
  have w: "w = takeWhile (\<lambda>c. \<not> isSpace c) ?t" and r: "rest = dropWhile (\<lambda>c. \<not> isSpace c) ?t"
    using assms by (simp_all add: readWord_def Let_def)
  have "s = takeWhile isSpace s @ w @ rest"
    by (simp add: w r)
  moreover have "\<forall>c\<in>set (takeWhile isSpace s). isSpace c"
    by (auto dest: set_takeWhileD)
  moreover have "\<forall>c\<in>set w. \<not> isSpace c"
    unfolding w by (auto dest: set_takeWhileD)
  ultimately show ?thesis by blast
qed

lemma matchLoop_Some:
  "matchLoop clean matches i0 = Some i \<Longrightarrow>
     i0 \<le> i \<and> nat (i - i0) < length matches \<and>
     list_ex (\<lambda>match. clean = toLower (trimmed match)) (split CHR ''|'' (matches ! nat (i - i0))) \<and>
     (\<forall>j < nat (i - i0). \<not> list_ex (\<lambda>match. clean = toLower (trimmed match)) (split CHR ''|'' (matches ! j)))"
proof (induction matches arbitrary: i0)
  case Nil
  then show ?case by simp
next
  case (Cons action matches)
  show ?case
  proof (cases "list_ex (\<lambda>match. clean = toLower (trimmed match)) (split CHR ''|'' action)")
    case True
    with Cons.prems show ?thesis by simp
  next
    case False
    with Cons.prems have "matchLoop clean matches (i0 + 1) = Some i" by simp
    from Cons.IH [OF this] have ih: "i0 + 1 \<le> i" "nat (i - (i0 + 1)) < length matches"
      "list_ex (\<lambda>match. clean = toLower (trimmed match)) (split CHR ''|'' (matches ! nat (i - (i0 + 1))))"
      "\<forall>j < nat (i - (i0 + 1)). \<not> list_ex (\<lambda>match. clean = toLower (trimmed match)) (split CHR ''|'' (matches ! j))"
      by auto
    have n: "nat (i - i0) = Suc (nat (i - (i0 + 1)))" using ih(1) by simp
    show ?thesis
      unfolding n using ih False by (auto simp: nth_Cons less_Suc_eq_0_disj)
  qed
qed

lemma matchLoop_first:
  "k < length matches \<Longrightarrow>
   list_ex (\<lambda>match. clean = toLower (trimmed match)) (split CHR ''|'' (matches ! k)) \<Longrightarrow>
   (\<forall>j < k. \<not> list_ex (\<lambda>match. clean = toLower (trimmed match)) (split CHR ''|'' (matches ! j))) \<Longrightarrow>
   matchLoop clean matches i0 = Some (i0 + int k)"
proof (induction matches arbitrary: i0 k)
  case Nil
  then show ?case by simp
next
  case (Cons action matches)
  show ?case
  proof (cases k)
    case 0
    with Cons.prems show ?thesis by simp
  next
    case (Suc k')
    have "\<not> list_ex (\<lambda>match. clean = toLower (trimmed match)) (split CHR ''|'' action)"
      using Cons.prems(3) Suc by auto
    moreover have "matchLoop clean matches (i0 + 1) = Some (i0 + 1 + int k')"
      using Cons.prems Suc by (intro Cons.IH) auto
    ultimately show ?thesis using Suc by simp
  qed
qed

lemma matchLoop_None:
  "matchLoop clean matches i0 = None \<longleftrightarrow>
   (\<forall>action\<in>set matches. \<not> list_ex (\<lambda>match. clean = toLower (trimmed match)) (split CHR ''|'' action))"
  by (induction matches arbitrary: i0) auto

lemma userAction_loop_result:
  "userAction_loop actions matches c = (i, c') \<Longrightarrow>
     (i = - 1 \<and> stdin c' = []) \<or>
     (\<exists>pre input. stdin c = pre @ input @ stdin c' \<and> stdin c' \<noteq> [] \<and>
        matchLoop (toLower (trimmed input)) matches 0 = Some i)"
proof (induction actions matches c rule: userAction_loop.induct)
  case (1 actions matches c)
  obtain input rest where rw: "readWord (stdin c) = (input, rest)"
    by (cases "readWord (stdin c)")
  from readWord_parts [OF rw] obtain pre where pre: "stdin c = pre @ input @ rest" by blast
  show ?case
  proof (cases "atEnd rest")
    case True
    with "1.prems" rw show ?thesis
      by (auto simp: userAction_loop.simps [of actions matches c] atEnd_def)
  next
    case False
    show ?thesis
    proof (cases "matchLoop (toLower (trimmed input)) matches 0")
      case (Some k)
      with "1.prems" rw False pre show ?thesis
        by (auto simp: userAction_loop.simps [of actions matches c] atEnd_def)
    next
      case None
      let ?c1 = "c\<lparr>stdin := rest, stdout := stdout c @ [UnknownResponse input actions]\<rparr>"
      have step: "userAction_loop actions matches ?c1 = (i, c')"
        using "1.prems" rw False None
        by (simp add: userAction_loop.simps [of actions matches c])
      from "1.IH" [OF rw [symmetric] False None step]
      show ?thesis
      proof
        assume "i = - 1 \<and> stdin c' = []"
        then show ?thesis by simp
      next
        assume "\<exists>pre input. stdin ?c1 = pre @ input @ stdin c' \<and> stdin c' \<noteq> [] \<and>
          matchLoop (toLower (trimmed input)) matches 0 = Some i"
        then obtain pre' input' where "rest = pre' @ input' @ stdin c'" "stdin c' \<noteq> []"
          "matchLoop (toLower (trimmed input')) matches 0 = Some i" by auto
        with pre have "stdin c = (pre @ input @ pre') @ input' @ stdin c'" by simp
        with \<open>stdin c' \<noteq> []\<close> \<open>matchLoop (toLower (trimmed input')) matches 0 = Some i\<close>
        show ?thesis by blast
      qed
    qed
  qed
qed


lemma userAction_loop_stdin:
  "userAction_loop actions matches c = (i, c') \<Longrightarrow> stdin d = stdin c \<Longrightarrow>
     \<exists>d'. userAction_loop actions' matches d = (i, d') \<and> stdin d' = stdin c'"
proof (induction actions matches c arbitrary: d rule: userAction_loop.induct)
  case (1 actions matches c)
  obtain input rest where rw: "readWord (stdin c) = (input, rest)"
    by (cases "readWord (stdin c)")
  show ?case
  proof (cases "atEnd rest")
    case True
    with "1.prems" rw show ?thesis
      by (auto simp: userAction_loop.simps [of _ matches c] userAction_loop.simps [of _ matches d])
  next
    case False
    show ?thesis
    proof (cases "matchLoop (toLower (trimmed input)) matches 0")
      case (Some k)
      with "1.prems" rw False show ?thesis
        by (auto simp: userAction_loop.simps [of _ matches c] userAction_loop.simps [of _ matches d])
    next
      case None
      let ?c1 = "c\<lparr>stdin := rest, stdout := stdout c @ [UnknownResponse input actions]\<rparr>"
      let ?d1 = "d\<lparr>stdin := rest, stdout := stdout d @ [UnknownResponse input actions']\<rparr>"
      have step: "userAction_loop actions matches ?c1 = (i, c')"
        using "1.prems" rw False None
        by (simp add: userAction_loop.simps [of actions matches c])
      have "\<exists>d'. userAction_loop actions' matches ?d1 = (i, d') \<and> stdin d' = stdin c'"
        by (rule "1.IH" [OF rw [symmetric] False None step]) simp
      moreover have "userAction_loop actions' matches d = userAction_loop actions' matches ?d1"
        using "1.prems" rw False None
        by (simp add: userAction_loop.simps [of actions' matches d])
      ultimately show ?thesis by simp
    qed
  qed
qed

lemma readWord_word:
  assumes ws: "\<forall>ch\<in>set ws. isSpace ch" and a: "a \<noteq> []" "\<forall>ch\<in>set a. \<not> isSpace ch"
    and tail: "tail = [] \<or> isSpace (hd tail)"
  shows "readWord (ws @ a @ tail) = (a, tail)"
proof -
  have d: "dropWhile isSpace (ws @ a @ tail) = dropWhile isSpace (a @ tail)"
    by (rule dropWhile_append2) (use ws in simp)
  have "a @ tail \<noteq> []" "\<not> isSpace (hd (a @ tail))"
    using a by (simp_all add: hd_append)
  then have d2: "dropWhile isSpace (a @ tail) = a @ tail"
    by (cases "a @ tail") auto
  have t: "takeWhile (\<lambda>c. \<not> isSpace c) (a @ tail) = a"
    using a(2) tail by (cases tail) (auto simp: takeWhile_append2 takeWhile_eq_all_conv)
  have r: "dropWhile (\<lambda>c. \<not> isSpace c) (a @ tail) = tail"
    using a(2) tail by (cases tail) (auto simp: dropWhile_append2)
  show ?thesis
    by (simp only: readWord_def Let_def d d2 t r)
qed

lemma readWord_skip:
  assumes "\<forall>ch\<in>set ws. isSpace ch"
  shows "readWord (ws @ s) = readWord s"
proof -
  have "dropWhile isSpace (ws @ s) = dropWhile isSpace s"
    by (rule dropWhile_append2) (use assms in simp)
  then show ?thesis by (simp add: readWord_def)
qed

lemma userAction_loop_same_read:
  assumes "readWord (stdin c) = readWord (stdin d)"
  shows "fst (userAction_loop actions matches c) = fst (userAction_loop actions' matches d)"
proof -
  obtain word rest where rc: "readWord (stdin c) = (word, rest)"
    by (cases "readWord (stdin c)")
  with assms have rd: "readWord (stdin d) = (word, rest)" by simp
  show ?thesis
  proof (cases "atEnd rest")
    case True
    with rc rd show ?thesis
      by (simp add: userAction_loop.simps [of _ matches c] userAction_loop.simps [of _ matches d])
  next
    case False
    show ?thesis
    proof (cases "matchLoop (toLower (trimmed word)) matches 0")
      case (Some k)
      with rc rd False show ?thesis
        by (simp add: userAction_loop.simps [of _ matches c] userAction_loop.simps [of _ matches d])
    next
      case None
      let ?c1 = "c\<lparr>stdin := rest, stdout := stdout c @ [UnknownResponse word actions]\<rparr>"
      let ?d1 = "d\<lparr>stdin := rest, stdout := stdout d @ [UnknownResponse word actions']\<rparr>"
      have c: "userAction_loop actions matches c = userAction_loop actions matches ?c1"
        using rc False None by (simp add: userAction_loop.simps [of actions matches c])
      have d: "userAction_loop actions' matches d = userAction_loop actions' matches ?d1"
        using rd False None by (simp add: userAction_loop.simps [of actions' matches d])
      obtain i c' where r: "userAction_loop actions matches ?c1 = (i, c')"
        by (cases "userAction_loop actions matches ?c1")
      from userAction_loop_stdin [OF r, of ?d1 actions']
      obtain d' where "userAction_loop actions' matches ?d1 = (i, d')" by auto
      with r c d show ?thesis by simp
    qed
  qed
qed

lemma userAction_insensitive:
  assumes ws: "\<forall>ch\<in>set ws1. isSpace ch" "\<forall>ch\<in>set ws1'. isSpace ch"
      "\<forall>ch\<in>set ws2. isSpace ch" "\<forall>ch\<in>set ws2'. isSpace ch" "ws2 \<noteq> []" "ws2' \<noteq> []"
    and a: "a \<noteq> []" "\<forall>ch\<in>set a. \<not> isSpace ch" and b: "\<forall>ch\<in>set b. \<not> isSpace ch"
    and low: "toLower a = toLower b"
  shows "fst (userAction message actions matches \<lparr>stdin = ws1 @ a @ ws2 @ rest, stdout = out\<rparr>) =
      fst (userAction message actions matches \<lparr>stdin = ws1' @ b @ ws2' @ rest, stdout = out'\<rparr>)"
proof -
  let ?c = "\<lparr>stdin = ws1 @ a @ ws2 @ rest, stdout = out @ [Question message actions]\<rparr>"
  let ?d = "\<lparr>stdin = ws1' @ b @ ws2' @ rest, stdout = out' @ [Question message actions]\<rparr>"
  have bn: "b \<noteq> []" using a(1) low by (auto simp: toLower_def)
  have t1: "ws2 @ rest = [] \<or> isSpace (hd (ws2 @ rest))"
    using ws(3,5) by (cases ws2) auto
  have t2: "ws2' @ rest = [] \<or> isSpace (hd (ws2' @ rest))"
    using ws(4,6) by (cases ws2') auto
  have rc: "readWord (stdin ?c) = (a, ws2 @ rest)"
    using readWord_word [OF ws(1) a t1] by simp
  have rd: "readWord (stdin ?d) = (b, ws2' @ rest)"
    using readWord_word [OF ws(2) bn b t2] by simp
  have m: "matchLoop (toLower (trimmed a)) matches 0 = matchLoop (toLower (trimmed b)) matches 0"
    using low by (simp add: trimmed_toLower [symmetric])
  have ne: "\<not> atEnd (ws2 @ rest)" "\<not> atEnd (ws2' @ rest)"
    using ws(5,6) by (simp_all add: atEnd_def)
  have "fst (userAction_loop actions matches ?c) = fst (userAction_loop actions matches ?d)"
  proof (cases "matchLoop (toLower (trimmed b)) matches 0")
    case (Some k)
    with rc rd m ne show ?thesis
      by (simp add: userAction_loop.simps [of _ matches ?c] userAction_loop.simps [of _ matches ?d])
  next
    case None
    let ?c1 = "?c\<lparr>stdin := ws2 @ rest, stdout := stdout ?c @ [UnknownResponse a actions]\<rparr>"
    let ?d1 = "?d\<lparr>stdin := ws2' @ rest, stdout := stdout ?d @ [UnknownResponse b actions]\<rparr>"
    have c: "userAction_loop actions matches ?c = userAction_loop actions matches ?c1"
      using rc ne None m by (simp add: userAction_loop.simps [of actions matches ?c])
    have d: "userAction_loop actions matches ?d = userAction_loop actions matches ?d1"
      using rd ne None by (simp add: userAction_loop.simps [of actions matches ?d])
    have "readWord (stdin ?c1) = readWord (stdin ?d1)"
      using readWord_skip [OF ws(3), of rest] readWord_skip [OF ws(4), of rest] by simp
    from userAction_loop_same_read [OF this, of actions matches actions] c d
    show ?thesis by simp
  qed
  then show ?thesis by (simp add: userAction_def)
qed

lemma userAction_loop_words:
  "userAction_loop actions matches c = (i, c') \<Longrightarrow> i \<noteq> - 1 \<Longrightarrow>
     \<exists>skipped word later.
        wordsRead (stdin c) = skipped @ (word, stdin c') # later \<and>
        (\<forall>p\<in>set skipped. matchLoop (toLower (trimmed (fst p))) matches 0 = None) \<and>
        matchLoop (toLower (trimmed word)) matches 0 = Some i \<and>
        stdout c' = stdout c @ map (\<lambda>p. UnknownResponse (fst p) actions) skipped"
proof (induction actions matches c rule: userAction_loop.induct)
  case (1 actions matches c)
  obtain input rest where rw: "readWord (stdin c) = (input, rest)"
    by (cases "readWord (stdin c)")
  show ?case
  proof (cases "atEnd rest")
    case True
    with "1.prems" rw show ?thesis
      by (simp add: userAction_loop.simps [of actions matches c])
  next
    case False
    have w: "wordsRead (stdin c) = (input, rest) # wordsRead rest"
      using rw False by (simp add: wordsRead.simps [of "stdin c"])
    show ?thesis
    proof (cases "matchLoop (toLower (trimmed input)) matches 0")
      case (Some k)
      with "1.prems" rw False have k: "i = k" "c' = c\<lparr>stdin := rest\<rparr>"
        by (simp_all add: userAction_loop.simps [of actions matches c])
      show ?thesis
      proof (intro exI conjI)
        show "wordsRead (stdin c) = [] @ (input, stdin c') # wordsRead rest"
          using w k by simp
        show "\<forall>p\<in>set []. matchLoop (toLower (trimmed (fst p))) matches 0 = None" by simp
        show "matchLoop (toLower (trimmed input)) matches 0 = Some i" using Some k by simp
        show "stdout c' = stdout c @ map (\<lambda>p. UnknownResponse (fst p) actions) []"
          using k by simp
      qed
    next
      case None
      let ?c1 = "c\<lparr>stdin := rest, stdout := stdout c @ [UnknownResponse input actions]\<rparr>"
      have step: "userAction_loop actions matches ?c1 = (i, c')"
        using "1.prems" rw False None
        by (simp add: userAction_loop.simps [of actions matches c])
      from "1.IH" [OF rw [symmetric] False None step "1.prems"(2)]
      obtain skipped word later where ih:
        "wordsRead (stdin ?c1) = skipped @ (word, stdin c') # later"
        "\<forall>p\<in>set skipped. matchLoop (toLower (trimmed (fst p))) matches 0 = None"
        "matchLoop (toLower (trimmed word)) matches 0 = Some i"
        "stdout c' = stdout ?c1 @ map (\<lambda>p. UnknownResponse (fst p) actions) skipped"
        by (elim exE conjE)
      show ?thesis
      proof (intro exI conjI)
        show "wordsRead (stdin c) = ((input, rest) # skipped) @ (word, stdin c') # later"
          using w ih(1) by simp
        show "\<forall>p\<in>set ((input, rest) # skipped).
            matchLoop (toLower (trimmed (fst p))) matches 0 = None"
          using ih(2) None by simp
        show "matchLoop (toLower (trimmed word)) matches 0 = Some i" by (rule ih(3))
        show "stdout c' = stdout c @
            map (\<lambda>p. UnknownResponse (fst p) actions) ((input, rest) # skipped)"
          using ih(4) by simp
      qed
    qed
  qed
qed

subsection \<open>Claims about the prompt\<close>

text \<open>
  Claim C7, amended.  Matching in \<open>userAction\<close> is insensitive to case and to white space:
  two inputs whose next words differ only in letter case, with any white space before and
  after them, make the prompt return the same choice.  An index is returned only for the word
  read in the returning round: the words read before it are held by no alias group, the group
  of the index holds the trimmed, lower-cased word and no earlier group does, and one notice
  has been printed for every word read before.  A word that no alias group holds and that is
  followed by more input makes the prompt print its notice and read again.
\<close>

theorem userAction_matching:
  "((\<forall>ch\<in>set ws1. isSpace ch) \<and> (\<forall>ch\<in>set ws1'. isSpace ch) \<and>
    (\<forall>ch\<in>set ws2. isSpace ch) \<and> (\<forall>ch\<in>set ws2'. isSpace ch) \<and> ws2 \<noteq> [] \<and> ws2' \<noteq> [] \<and>
    a \<noteq> [] \<and> (\<forall>ch\<in>set a. \<not> isSpace ch) \<and> (\<forall>ch\<in>set b. \<not> isSpace ch) \<and>
    toLower a = toLower b \<longrightarrow>
      fst (userAction message actions matches \<lparr>stdin = ws1 @ a @ ws2 @ rest, stdout = out\<rparr>) =
      fst (userAction message actions matches \<lparr>stdin = ws1' @ b @ ws2' @ rest, stdout = out'\<rparr>))
   \<and> (userAction message actions matches c = (i, c') \<and> i \<noteq> - 1 \<longrightarrow>
        (\<exists>skipped word later.
           wordsRead (stdin c) = skipped @ (word, stdin c') # later \<and>
           (\<forall>p\<in>set skipped. \<forall>action\<in>set matches.
               \<not> list_ex (\<lambda>match. toLower (trimmed (fst p)) = toLower (trimmed match))
                   (split CHR ''|'' action)) \<and>
           0 \<le> i \<and> nat i < length matches \<and>
           list_ex (\<lambda>match. toLower (trimmed word) = toLower (trimmed match))
             (split CHR ''|'' (matches ! nat i)) \<and>
           (\<forall>j<nat i. \<not> list_ex (\<lambda>match. toLower (trimmed word) = toLower (trimmed match))
                         (split CHR ''|'' (matches ! j))) \<and>
           stdout c' =
             stdout c @ Question message actions #
               map (\<lambda>p. UnknownResponse (fst p) actions) skipped))
   \<and> (readWord (stdin c) = (first, tail) \<and> \<not> atEnd tail \<and>
        (\<forall>action\<in>set matches.
            \<not> list_ex (\<lambda>match. toLower (trimmed first) = toLower (trimmed match))
                (split CHR ''|'' action)) \<longrightarrow>
        userAction message actions matches c =
          userAction_loop actions matches
            (c\<lparr>stdin := tail,
               stdout := stdout c @ [Question message actions, UnknownResponse first actions]\<rparr>))"
proof (intro conjI impI)
  assume "(\<forall>ch\<in>set ws1. isSpace ch) \<and> (\<forall>ch\<in>set ws1'. isSpace ch) \<and>
    (\<forall>ch\<in>set ws2. isSpace ch) \<and> (\<forall>ch\<in>set ws2'. isSpace ch) \<and> ws2 \<noteq> [] \<and> ws2' \<noteq> [] \<and>
    a \<noteq> [] \<and> (\<forall>ch\<in>set a. \<not> isSpace ch) \<and> (\<forall>ch\<in>set b. \<not> isSpace ch) \<and>
    toLower a = toLower b"
  then show "fst (userAction message actions matches \<lparr>stdin = ws1 @ a @ ws2 @ rest, stdout = out\<rparr>) =
      fst (userAction message actions matches \<lparr>stdin = ws1' @ b @ ws2' @ rest, stdout = out'\<rparr>)"
    by (intro userAction_insensitive) blast+
next
  assume h: "userAction message actions matches c = (i, c') \<and> i \<noteq> - 1"
  let ?c0 = "c\<lparr>stdout := stdout c @ [Question message actions]\<rparr>"
  from h have l: "userAction_loop actions matches ?c0 = (i, c')" and i: "i \<noteq> - 1"
    by (simp_all add: userAction_def)
  from userAction_loop_words [OF l i]
  obtain skipped word later where w:
    "wordsRead (stdin ?c0) = skipped @ (word, stdin c') # later"
    "\<forall>p\<in>set skipped. matchLoop (toLower (trimmed (fst p))) matches 0 = None"
    "matchLoop (toLower (trimmed word)) matches 0 = Some i"
    "stdout c' = stdout ?c0 @ map (\<lambda>p. UnknownResponse (fst p) actions) skipped"
    by (elim exE conjE)
  note m = matchLoop_Some [OF w(3)]
  show "\<exists>skipped word later.
           wordsRead (stdin c) = skipped @ (word, stdin c') # later \<and>
           (\<forall>p\<in>set skipped. \<forall>action\<in>set matches.
               \<not> list_ex (\<lambda>match. toLower (trimmed (fst p)) = toLower (trimmed match))
                   (split CHR ''|'' action)) \<and>
           0 \<le> i \<and> nat i < length matches \<and>
           list_ex (\<lambda>match. toLower (trimmed word) = toLower (trimmed match))
             (split CHR ''|'' (matches ! nat i)) \<and>
           (\<forall>j<nat i. \<not> list_ex (\<lambda>match. toLower (trimmed word) = toLower (trimmed match))
                         (split CHR ''|'' (matches ! j))) \<and>
           stdout c' =
             stdout c @ Question message actions #
               map (\<lambda>p. UnknownResponse (fst p) actions) skipped"
  proof (intro exI conjI)
    show "wordsRead (stdin c) = skipped @ (word, stdin c') # later"
      using w(1) by simp
    show "\<forall>p\<in>set skipped. \<forall>action\<in>set matches.
               \<not> list_ex (\<lambda>match. toLower (trimmed (fst p)) = toLower (trimmed match))
                   (split CHR ''|'' action)"
      using w(2) by (simp add: matchLoop_None)
    show "0 \<le> i" using m by simp
    show "nat i < length matches" using m by simp
    show "list_ex (\<lambda>match. toLower (trimmed word) = toLower (trimmed match))
             (split CHR ''|'' (matches ! nat i))" using m by simp
    show "\<forall>j<nat i. \<not> list_ex (\<lambda>match. toLower (trimmed word) = toLower (trimmed match))
                         (split CHR ''|'' (matches ! j))" using m by simp
    show "stdout c' =
             stdout c @ Question message actions #
               map (\<lambda>p. UnknownResponse (fst p) actions) skipped"
      using w(4) by simp
  qed
next
  assume h: "readWord (stdin c) = (first, tail) \<and> \<not> atEnd tail \<and>
        (\<forall>action\<in>set matches.
            \<not> list_ex (\<lambda>match. toLower (trimmed first) = toLower (trimmed match))
                (split CHR ''|'' action))"
  then have "matchLoop (toLower (trimmed first)) matches 0 = None"
    by (simp add: matchLoop_None)
  with h show "userAction message actions matches c =
          userAction_loop actions matches
            (c\<lparr>stdin := tail,
               stdout := stdout c @ [Question message actions, UnknownResponse first actions]\<rparr>)"
    unfolding userAction_def
    by (subst userAction_loop.simps) simp
qed

text \<open>The definitions that evaluate the text helpers on a given text.\<close>

lemmas eval_text = readWord_def isSpace_def atEnd_def trimmed_def toLower_def toLowerChar_def

theorem userAction_matching_witness:
  "fst (userAction ChooseAction yesNoActions yesNoMatches
          \<lparr>stdin = '' '' @ ''Y'' @ [CHR '' '', CHR 0x0A] @ [], stdout = []\<rparr>) =
     fst (userAction ChooseAction yesNoActions yesNoMatches
          \<lparr>stdin = [] @ ''y'' @ [CHR 0x0A] @ [], stdout = []\<rparr>)
   \<and> (\<exists>skipped word later.
         wordsRead (stdin \<lparr>stdin = ''maybe Y '', stdout = []\<rparr>) =
           skipped @ (word, stdin \<lparr>stdin = '' '', stdout = [Question ChooseAction yesNoActions,
              UnknownResponse ''maybe'' yesNoActions]\<rparr>) # later \<and>
         (\<forall>p\<in>set skipped. \<forall>action\<in>set yesNoMatches.
             \<not> list_ex (\<lambda>match. toLower (trimmed (fst p)) = toLower (trimmed match))
                 (split CHR ''|'' action)) \<and>
         (0::int) \<le> 0 \<and> nat 0 < length yesNoMatches \<and>
         list_ex (\<lambda>match. toLower (trimmed word) = toLower (trimmed match))
           (split CHR ''|'' (yesNoMatches ! nat 0)) \<and>
         (\<forall>j<nat 0. \<not> list_ex (\<lambda>match. toLower (trimmed word) = toLower (trimmed match))
                       (split CHR ''|'' (yesNoMatches ! j))) \<and>
         stdout \<lparr>stdin = '' '', stdout = [Question ChooseAction yesNoActions,
              UnknownResponse ''maybe'' yesNoActions]\<rparr> =
           stdout \<lparr>stdin = ''maybe Y '', stdout = []\<rparr> @ Question ChooseAction yesNoActions #
             map (\<lambda>p. UnknownResponse (fst p) yesNoActions) skipped)
   \<and> userAction ChooseAction yesNoActions yesNoMatches \<lparr>stdin = ''maybe Y '', stdout = []\<rparr> =
       userAction_loop yesNoActions yesNoMatches
         (\<lparr>stdin = ''maybe Y '', stdout = []\<rparr>\<lparr>stdin := '' Y '',
            stdout := stdout \<lparr>stdin = ''maybe Y '', stdout = []\<rparr> @
              [Question ChooseAction yesNoActions, UnknownResponse ''maybe'' yesNoActions]\<rparr>)"
proof -
  let ?c = "\<lparr>stdin = ''maybe Y '', stdout = []\<rparr>"
  let ?c' = "\<lparr>stdin = '' '', stdout = [Question ChooseAction yesNoActions,
              UnknownResponse ''maybe'' yesNoActions]\<rparr>"
  have h1: "(\<forall>ch\<in>set '' ''. isSpace ch) \<and> (\<forall>ch\<in>set []. isSpace ch) \<and>
    (\<forall>ch\<in>set [CHR '' '', CHR 0x0A]. isSpace ch) \<and> (\<forall>ch\<in>set [CHR 0x0A]. isSpace ch) \<and>
    [CHR '' '', CHR 0x0A] \<noteq> [] \<and> [CHR 0x0A] \<noteq> [] \<and>
    ''Y'' \<noteq> [] \<and> (\<forall>ch\<in>set ''Y''. \<not> isSpace ch) \<and> (\<forall>ch\<in>set ''y''. \<not> isSpace ch) \<and>
    toLower ''Y'' = toLower ''y''"
    by (simp add: isSpace_def toLower_def toLowerChar_def)
  have h2: "userAction ChooseAction yesNoActions yesNoMatches ?c = (0, ?c') \<and> (0::int) \<noteq> - 1"
    by (simp add: userAction_def userAction_loop.simps eval_text yesNoMatches_def)
  have h3: "readWord (stdin ?c) = (''maybe'', '' Y '') \<and> \<not> atEnd '' Y '' \<and>
        (\<forall>action\<in>set yesNoMatches.
            \<not> list_ex (\<lambda>match. toLower (trimmed ''maybe'') = toLower (trimmed match))
                (split CHR ''|'' action))"
    by (simp add: eval_text yesNoMatches_def)
  note a = userAction_matching [THEN conjunct1, rule_format, OF h1]
  note b = userAction_matching [THEN conjunct2, THEN conjunct1, rule_format, OF h2]
  note c = userAction_matching [THEN conjunct2, THEN conjunct2, rule_format, OF h3]
  from a b c show ?thesis by blast
qed

text \<open>
  Claim C7, as stated, fails in its last part: on the stream \<open>maybe\<close> without anything after
  it the word read matches no alias, and the prompt returns \<open>-1\<close> with no notice printed and
  no further read.
\<close>

theorem userAction_unmatched_at_end_counterexample:
  "readWord ''maybe'' = (''maybe'', []) \<and>
   matchLoop (toLower (trimmed ''maybe'')) yesNoMatches 0 = None \<and>
   userAction ChooseAction yesNoActions yesNoMatches \<lparr>stdin = ''maybe'', stdout = []\<rparr> =
     (- 1, \<lparr>stdin = [], stdout = [Question ChooseAction yesNoActions]\<rparr>)"
  by (simp add: userAction_def userAction_loop.simps eval_text yesNoMatches_def)

text \<open>
  Claim C8, as stated, fails: the stream \<open>y\<close> without anything after it delivers the word
  \<open>y\<close>, an alias of the first choice, and the prompt returns \<open>-1\<close>, because the test for the
  end of the stream comes after the read and before the matching.
\<close>

theorem userAction_match_at_end_counterexample:
  "readWord ''y'' = (''y'', []) \<and>
   matchLoop (toLower (trimmed ''y'')) yesNoMatches 0 = Some 0 \<and>
   fst (userAction ChooseAction yesNoActions yesNoMatches \<lparr>stdin = ''y'', stdout = []\<rparr>) = - 1"
  by (simp add: userAction_def userAction_loop.simps eval_text yesNoMatches_def)

text \<open>
  Claim C8, amended.  At every read of the loop: when the stream is at its end after the read,
  the prompt returns \<open>-1\<close> at once, whatever the word read; when input remains after the word
  and \<open>k\<close> is the first choice one of whose aliases equals the trimmed, lower-cased word, the
  prompt returns \<open>k\<close> at once.  In both cases nothing is printed.  The prompt returns \<open>-1\<close>
  only with the stream at its end.
\<close>

theorem userAction_returns:
  "(readWord (stdin c) = (word, rest) \<and> atEnd rest \<longrightarrow>
      userAction_loop actions matches c = (- 1, c\<lparr>stdin := rest\<rparr>))
   \<and> (readWord (stdin c) = (word, rest) \<and> \<not> atEnd rest \<and> k < length matches \<and>
        list_ex (\<lambda>match. toLower (trimmed word) = toLower (trimmed match))
          (split CHR ''|'' (matches ! k)) \<and>
        (\<forall>j<k. \<not> list_ex (\<lambda>match. toLower (trimmed word) = toLower (trimmed match))
                  (split CHR ''|'' (matches ! j))) \<longrightarrow>
      userAction_loop actions matches c = (int k, c\<lparr>stdin := rest\<rparr>))
   \<and> (userAction_loop actions matches c = (- 1, c') \<longrightarrow> atEnd (stdin c'))"
proof (intro conjI impI)
  assume "readWord (stdin c) = (word, rest) \<and> atEnd rest"
  then show "userAction_loop actions matches c = (- 1, c\<lparr>stdin := rest\<rparr>)"
    by (subst userAction_loop.simps) simp
next
  assume h: "readWord (stdin c) = (word, rest) \<and> \<not> atEnd rest \<and> k < length matches \<and>
        list_ex (\<lambda>match. toLower (trimmed word) = toLower (trimmed match))
          (split CHR ''|'' (matches ! k)) \<and>
        (\<forall>j<k. \<not> list_ex (\<lambda>match. toLower (trimmed word) = toLower (trimmed match))
                  (split CHR ''|'' (matches ! j)))"
  then have "matchLoop (toLower (trimmed word)) matches 0 = Some (0 + int k)"
    by (intro matchLoop_first) auto
  with h show "userAction_loop actions matches c = (int k, c\<lparr>stdin := rest\<rparr>)"
    by (subst userAction_loop.simps) simp
next
  assume h: "userAction_loop actions matches c = (- 1, c')"
  from userAction_loop_result [OF this] show "atEnd (stdin c')"
    by (auto simp: atEnd_def dest: matchLoop_Some)
qed

theorem userAction_returns_witness:
  "userAction_loop yesNoActions yesNoMatches \<lparr>stdin = ''y'', stdout = []\<rparr> =
     (- 1, \<lparr>stdin = [], stdout = []\<rparr>)
   \<and> userAction_loop yesNoActions yesNoMatches \<lparr>stdin = ''NO '', stdout = []\<rparr> =
     (int 1, \<lparr>stdin = '' '', stdout = []\<rparr>)
   \<and> atEnd (stdin \<lparr>stdin = [], stdout = []\<rparr>)"
  using userAction_returns [where c = "\<lparr>stdin = ''y'', stdout = []\<rparr>" and word = "''y''"
      and rest = "[]" and actions = yesNoActions and matches = yesNoMatches
      and c' = "\<lparr>stdin = [], stdout = []\<rparr>" and k = 1]
    userAction_returns [where c = "\<lparr>stdin = ''NO '', stdout = []\<rparr>" and word = "''NO''"
      and rest = "'' ''" and actions = yesNoActions and matches = yesNoMatches and k = 1
      and c' = "\<lparr>stdin = [], stdout = []\<rparr>"]
  by (simp add: eval_text yesNoMatches_def less_Suc_eq_0_disj)

section \<open>Properties of the unlock request\<close>

lemma userAction_choice:
  "userAction message actions matches c = (i, c') \<Longrightarrow>
     operatorChoice matches (stdin c) = (i, stdin c')"
proof -
  assume "userAction message actions matches c = (i, c')"
  then have "userAction_loop actions matches (c\<lparr>stdout := stdout c @ [Question message actions]\<rparr>) = (i, c')"
    by (simp add: userAction_def)
  from userAction_loop_stdin [OF this, of "\<lparr>stdin = stdin c, stdout = []\<rparr>" "[]"]
  show ?thesis by (auto simp: operatorChoice_def)
qed

lemma operatorChoice_userAction:
  assumes "operatorChoice matches (stdin c) = (i, s')"
  shows "\<exists>c'. userAction message actions matches c = (i, c') \<and> stdin c' = s'"
proof -
  obtain j c' where u: "userAction message actions matches c = (j, c')"
    by (cases "userAction message actions matches c")
  from userAction_choice [OF u] assms show ?thesis using u by simp
qed

lemma unlockLoop_all:
  "action \<noteq> AllowSelected \<Longrightarrow>
     unlockLoop action d entries ds c = (True, (\<lambda>e. if e \<in> set entries then Some d else ds e), c)"
proof (induction entries arbitrary: ds)
  case Nil
  then show ?case by simp
next
  case (Cons x entries)
  have "(\<lambda>e. if e \<in> set entries then Some d else (ds(x \<mapsto> d)) e) =
        (\<lambda>e. if e \<in> set (x # entries) then Some d else ds e)"
    by (auto simp: fun_eq_iff)
  with Cons show ?case by simp
qed

lemma rememberLoop_apply:
  "rememberLoop d entries ds e =
     (if e \<in> set entries \<and> valueOf ds e \<noteq> Undecided then Some d else ds e)"
proof (induction entries arbitrary: ds)
  case Nil
  then show ?case by simp
next
  case (Cons x entries)
  show ?case
    by (auto simp: Cons.IH valueOf_def)
qed

lemma rememberLoop_all:
  assumes "d0 \<noteq> Undecided"
  shows "rememberLoop d entries (\<lambda>e. if e \<in> set entries then Some d0 else ds e) =
     (\<lambda>e. if e \<in> set entries then Some d else ds e)"
  using assms by (auto simp: fun_eq_iff rememberLoop_apply valueOf_def)

text \<open>
  Claim C3.  When the operator answers "Allow All" and then "yes" to the remember question,
  the request succeeds, every requested entry has the decision \<open>Allowed\<close> and
  \<open>forFutureEntries\<close> is \<open>Allowed\<close>; with "Allow All" and then "no", every requested entry
  has \<open>AllowedOnce\<close> and \<open>forFutureEntries\<close> is \<open>Undecided\<close>; with "Deny All" and then "yes",
  every requested entry has \<open>Denied\<close> and \<open>forFutureEntries\<close> is \<open>Denied\<close>.  The decisions of
  other entries are as before.
\<close>

theorem unlock_batch_choice:
  "(operatorChoice chooseMatches (stdin c) = (0, s1) \<and> operatorChoice yesNoMatches s1 = (0, s2) \<longrightarrow>
      (\<exists>c'. requestEntriesUnlock entries decisions c =
         (True, (\<lambda>e. if e \<in> set entries then Some Allowed else decisions e), Allowed, c')))
   \<and> (operatorChoice chooseMatches (stdin c) = (0, s1) \<and> operatorChoice yesNoMatches s1 = (1, s2) \<longrightarrow>
      (\<exists>c'. requestEntriesUnlock entries decisions c =
         (True, (\<lambda>e. if e \<in> set entries then Some AllowedOnce else decisions e), Undecided, c')))
   \<and> (operatorChoice chooseMatches (stdin c) = (1, s1) \<and> operatorChoice yesNoMatches s1 = (0, s2) \<longrightarrow>
      (\<exists>c'. requestEntriesUnlock entries decisions c =
         (True, (\<lambda>e. if e \<in> set entries then Some Denied else decisions e), Denied, c')))"
proof -
  let ?c1 = "c\<lparr>stdout := stdout c @ [AccessHeader] @ map (AccessEntry 1) entries\<rparr>"
  have run: "\<exists>c'. requestEntriesUnlock entries decisions c =
      (True, (if r = 0 then rememberLoop durable entries
                (\<lambda>e. if e \<in> set entries then Some once else decisions e)
              else (\<lambda>e. if e \<in> set entries then Some once else decisions e)),
       (if r = 0 then durable else Undecided), c')"
    if b: "operatorChoice chooseMatches (stdin c) = (b, s1)"
      and act: "b = 0 \<and> action = AllowAll \<and> once = AllowedOnce \<and> durable = Allowed \<or>
       b = 1 \<and> action = DenyAll \<and> once = DeniedOnce \<and> durable = Denied"
      and r: "operatorChoice yesNoMatches s1 = (r, s2)" "r = 0 \<or> r = 1"
    for b r action once durable
  proof -
    from operatorChoice_userAction [of chooseMatches ?c1 b s1 ChooseAction chooseActions] b
    obtain c2 where c2: "userAction ChooseAction chooseActions chooseMatches ?c1 = (b, c2)"
      "stdin c2 = s1" by auto
    from operatorChoice_userAction [of yesNoMatches c2 r s2 "RememberAction action" yesNoActions]
      r(1) c2(2)
    obtain c4 where c4: "userAction (RememberAction action) yesNoActions yesNoMatches c2 = (r, c4)"
      by auto
    have sel: "(if b = 0 then Some (AllowAll, AllowedOnce)
                 else if b = 1 then Some (DenyAll, DeniedOnce)
                 else if b = 2 then Some (AllowSelected, AllowedOnce)
                 else None) = Some (action, once)"
      using act by auto
    have ne: "action \<noteq> AllowSelected" using act by auto
    have fin: "(if action = AllowSelected then (Allowed, Undecided)
                else if action = AllowAll then (Allowed, Allowed)
                else if action = DenyAll then (Denied, Denied)
                else (once, Undecided)) = (durable, durable)"
      using act by auto
    have "requestEntriesUnlock entries decisions c =
      (True, (if r = 0 then rememberLoop durable entries
                (\<lambda>e. if e \<in> set entries then Some once else decisions e)
              else (\<lambda>e. if e \<in> set entries then Some once else decisions e)),
       (if r = 0 then durable else Undecided), c4)"
      unfolding requestEntriesUnlock_def Let_def c2(1) prod.case sel option.case
        unlockLoop_all [OF ne] c4 fin
      using r(2) by auto
    then show ?thesis by blast
  qed
  show ?thesis
  proof (intro conjI impI)
    assume "operatorChoice chooseMatches (stdin c) = (0, s1) \<and> operatorChoice yesNoMatches s1 = (0, s2)"
    then show "\<exists>c'. requestEntriesUnlock entries decisions c =
         (True, (\<lambda>e. if e \<in> set entries then Some Allowed else decisions e), Allowed, c')"
      using run [of 0 AllowAll AllowedOnce Allowed 0] by (simp add: rememberLoop_all)
  next
    assume "operatorChoice chooseMatches (stdin c) = (0, s1) \<and> operatorChoice yesNoMatches s1 = (1, s2)"
    then show "\<exists>c'. requestEntriesUnlock entries decisions c =
         (True, (\<lambda>e. if e \<in> set entries then Some AllowedOnce else decisions e), Undecided, c')"
      using run [of 0 AllowAll AllowedOnce Allowed 1] by simp
  next
    assume "operatorChoice chooseMatches (stdin c) = (1, s1) \<and> operatorChoice yesNoMatches s1 = (0, s2)"
    then show "\<exists>c'. requestEntriesUnlock entries decisions c =
         (True, (\<lambda>e. if e \<in> set entries then Some Denied else decisions e), Denied, c')"
      using run [of 1 DenyAll DeniedOnce Denied 0] by (simp add: rememberLoop_all)
  qed
qed


lemma unlockLoop_writes:
  "unlockLoop action d entries ds c = (ok, ds', c') \<Longrightarrow>
     \<forall>e. ds' e = ds e \<or> ds' e = Some Undecided \<or> ds' e = Some d"
proof (induction entries arbitrary: ds c)
  case Nil
  then show ?case by simp
next
  case (Cons x entries)
  show ?case
  proof (cases "action = AllowSelected")
    case False
    with Cons.prems have "unlockLoop action d entries (ds(x \<mapsto> d)) c = (ok, ds', c')"
      by simp
    from Cons.IH [OF this]
    have ih: "\<forall>e. ds' e = (ds(x \<mapsto> d)) e \<or> ds' e = Some Undecided \<or> ds' e = Some d" .
    show ?thesis
    proof
      fix e
      from ih have "ds' e = (ds(x \<mapsto> d)) e \<or> ds' e = Some Undecided \<or> ds' e = Some d"
        by blast
      then show "ds' e = ds e \<or> ds' e = Some Undecided \<or> ds' e = Some d"
        by (cases "e = x") auto
    qed
  next
    case True
    obtain i c1 where u: "userAction (AllowAccess x) yesNoActions yesNoMatches c = (i, c1)"
      by (cases "userAction (AllowAccess x) yesNoActions yesNoMatches c")
    show ?thesis
    proof (cases "i = - 1")
      case True
      with Cons.prems \<open>action = AllowSelected\<close> u show ?thesis by simp
    next
      case False
      let ?v = "if i \<noteq> 0 then Undecided else d"
      from Cons.prems \<open>action = AllowSelected\<close> u False
      have "unlockLoop action d entries (ds(x \<mapsto> ?v)) c1 = (ok, ds', c')"
        by simp
      from Cons.IH [OF this]
      have ih: "\<forall>e. ds' e = (ds(x \<mapsto> ?v)) e \<or> ds' e = Some Undecided \<or> ds' e = Some d" .
      show ?thesis
      proof
        fix e
        from ih have "ds' e = (ds(x \<mapsto> ?v)) e \<or> ds' e = Some Undecided \<or> ds' e = Some d"
          by blast
        then show "ds' e = ds e \<or> ds' e = Some Undecided \<or> ds' e = Some d"
          by (cases "e = x") (auto split: if_splits)
      qed
    qed
  qed
qed

lemma unlockLoop_selected:
  "entryAnswers (length entries) (stdin c) = (answers, s2) \<Longrightarrow> - 1 \<notin> set answers \<Longrightarrow>
     \<exists>ds' c'. unlockLoop AllowSelected d entries ds c = (True, ds', c') \<and> stdin c' = s2 \<and>
        (\<forall>k<length entries. entries ! k \<notin> set (drop (Suc k) entries) \<longrightarrow>
            ds' (entries ! k) = Some (if answers ! k \<noteq> 0 then Undecided else d)) \<and>
        (\<forall>e. e \<notin> set entries \<longrightarrow> ds' e = ds e) \<and>
        (\<forall>e\<in>set entries. ds' e = Some Undecided \<or> ds' e = Some d)"
proof (induction entries arbitrary: ds c answers)
  case Nil
  then show ?case by simp
next
  case (Cons x entries)
  obtain i s' where oc: "operatorChoice yesNoMatches (stdin c) = (i, s')"
    by (cases "operatorChoice yesNoMatches (stdin c)")
  obtain rest s'' where ea: "entryAnswers (length entries) s' = (rest, s'')"
    by (cases "entryAnswers (length entries) s'")
  have i: "i \<noteq> - 1"
    using Cons.prems oc by (auto split: if_splits)
  with Cons.prems oc ea have answers: "answers = i # rest" and s2: "s'' = s2"
    by auto
  from operatorChoice_userAction [OF oc, of "AllowAccess x" yesNoActions]
  obtain c1 where u: "userAction (AllowAccess x) yesNoActions yesNoMatches c = (i, c1)"
    and c1: "stdin c1 = s'" by auto
  let ?v = "if i \<noteq> 0 then Undecided else d"
  have nr: "- 1 \<notin> set rest" using Cons.prems(2) answers by simp
  have ea': "entryAnswers (length entries) (stdin c1) = (rest, s2)"
    using ea c1 s2 by simp
  from Cons.IH [OF ea' nr, of "ds(x \<mapsto> ?v)"]
  obtain ds' c' where ih: "unlockLoop AllowSelected d entries (ds(x \<mapsto> ?v)) c1 = (True, ds', c')"
    "stdin c' = s2"
    "\<forall>k<length entries. entries ! k \<notin> set (drop (Suc k) entries) \<longrightarrow>
            ds' (entries ! k) = Some (if rest ! k \<noteq> 0 then Undecided else d)"
    "\<forall>e. e \<notin> set entries \<longrightarrow> ds' e = (ds(x \<mapsto> ?v)) e"
    "\<forall>e\<in>set entries. ds' e = Some Undecided \<or> ds' e = Some d"
    by blast
  have run: "unlockLoop AllowSelected d (x # entries) ds c = (True, ds', c')"
    using u i ih(1) by simp
  have last: "\<forall>k<length (x # entries). (x # entries) ! k \<notin> set (drop (Suc k) (x # entries)) \<longrightarrow>
            ds' ((x # entries) ! k) = Some (if answers ! k \<noteq> 0 then Undecided else d)"
  proof (intro allI impI)
    fix k
    assume k: "k < length (x # entries)"
      and l: "(x # entries) ! k \<notin> set (drop (Suc k) (x # entries))"
    show "ds' ((x # entries) ! k) = Some (if answers ! k \<noteq> 0 then Undecided else d)"
    proof (cases k)
      case 0
      with l have "x \<notin> set entries" by simp
      with ih(4) have "ds' x = Some ?v" by simp
      with 0 answers show ?thesis by simp
    next
      case (Suc k')
      with k l ih(3) answers show ?thesis by simp
    qed
  qed
  have other: "\<forall>e. e \<notin> set (x # entries) \<longrightarrow> ds' e = ds e"
    using ih(4) by simp
  have vals: "\<forall>e\<in>set (x # entries). ds' e = Some Undecided \<or> ds' e = Some d"
  proof
    fix e assume "e \<in> set (x # entries)"
    show "ds' e = Some Undecided \<or> ds' e = Some d"
    proof (cases "e \<in> set entries")
      case True
      with ih(5) show ?thesis by simp
    next
      case False
      with \<open>e \<in> set (x # entries)\<close> have "e = x" by simp
      with False ih(4) show ?thesis by simp
    qed
  qed
  from run ih(2) last other vals show ?case by blast
qed

lemma unlockLoop_cancelled:
  "entryAnswers (length entries) (stdin c) = (answers, s2) \<Longrightarrow> - 1 \<in> set answers \<Longrightarrow>
     fst (unlockLoop AllowSelected d entries ds c) = False"
proof (induction entries arbitrary: ds c answers)
  case Nil
  then show ?case by simp
next
  case (Cons x entries)
  obtain i s' where oc: "operatorChoice yesNoMatches (stdin c) = (i, s')"
    by (cases "operatorChoice yesNoMatches (stdin c)")
  from operatorChoice_userAction [OF oc, of "AllowAccess x" yesNoActions]
  obtain c1 where u: "userAction (AllowAccess x) yesNoActions yesNoMatches c = (i, c1)"
    and c1: "stdin c1 = s'" by auto
  show ?case
  proof (cases "i = - 1")
    case True
    with u show ?thesis by simp
  next
    case False
    obtain rest s'' where ea: "entryAnswers (length entries) s' = (rest, s'')"
      by (cases "entryAnswers (length entries) s'")
    with Cons.prems oc False have "answers = i # rest" and s2: "s'' = s2" by auto
    with Cons.prems(2) False have nr: "- 1 \<in> set rest" by auto
    have ea': "entryAnswers (length entries) (stdin c1) = (rest, s2)"
      using ea c1 s2 by simp
    from Cons.IH [OF ea' nr]
    have "fst (unlockLoop AllowSelected d entries
        (ds(x \<mapsto> (if i \<noteq> 0 then Undecided else d))) c1) = False" by simp
    with u False show ?thesis by simp
  qed
qed


lemma requestEntriesUnlock_rejected:
  assumes "userAction ChooseAction chooseActions chooseMatches
             (c\<lparr>stdout := stdout c @ [AccessHeader] @ map (AccessEntry 1) entries\<rparr>) = (b, c2)"
    and "b \<noteq> 0" "b \<noteq> 1" "b \<noteq> 2"
  shows "requestEntriesUnlock entries decisions c = (False, decisions, Undecided, c2)"
  unfolding requestEntriesUnlock_def Let_def assms(1) prod.case
  using assms(2-4) by simp

lemma requestEntriesUnlock_chosen:
  assumes "userAction ChooseAction chooseActions chooseMatches
             (c\<lparr>stdout := stdout c @ [AccessHeader] @ map (AccessEntry 1) entries\<rparr>) = (b, c2)"
    and "b = 0 \<and> action = AllowAll \<and> once = AllowedOnce \<and> durable = Allowed \<and> future = Allowed \<or>
         b = 1 \<and> action = DenyAll \<and> once = DeniedOnce \<and> durable = Denied \<and> future = Denied \<or>
         b = 2 \<and> action = AllowSelected \<and> once = AllowedOnce \<and> durable = Allowed \<and> future = Undecided"
    and "unlockLoop action once entries decisions c2 = (ok, ds1, c3)"
    and "userAction (RememberAction action) yesNoActions yesNoMatches c3 = (r, c4)"
  shows "requestEntriesUnlock entries decisions c =
     (if \<not> ok then (False, ds1, Undecided, c3)
      else if r = 0 then (True, rememberLoop durable entries ds1, future, c4)
      else if r = 1 then (True, ds1, Undecided, c4)
      else (False, ds1, Undecided, c4))"
proof -
  have sel: "(if b = 0 then Some (AllowAll, AllowedOnce)
               else if b = 1 then Some (DenyAll, DeniedOnce)
               else if b = 2 then Some (AllowSelected, AllowedOnce)
               else None) = Some (action, once)"
    using assms(2) by auto
  have fin: "(if action = AllowSelected then (Allowed, Undecided)
              else if action = AllowAll then (Allowed, Allowed)
              else if action = DenyAll then (Denied, Denied)
              else (once, Undecided)) = (durable, future)"
    using assms(2) by auto
  show ?thesis
    unfolding requestEntriesUnlock_def Let_def assms(1) prod.case sel option.case
      assms(3) assms(4) fin
    by simp
qed

lemma unlock_selected_run:
  assumes b: "operatorChoice chooseMatches (stdin c) = (2, s1)"
    and ea: "entryAnswers (length entries) s1 = (answers, s2)" "- 1 \<notin> set answers"
    and r: "operatorChoice yesNoMatches s2 = (r, s3)"
  shows "\<exists>ds1 c4. requestEntriesUnlock entries decisions c =
       (if r = 0 then (True, rememberLoop Allowed entries ds1, Undecided, c4)
        else if r = 1 then (True, ds1, Undecided, c4)
        else (False, ds1, Undecided, c4)) \<and>
       (\<forall>k<length entries. entries ! k \<notin> set (drop (Suc k) entries) \<longrightarrow>
            ds1 (entries ! k) = Some (if answers ! k \<noteq> 0 then Undecided else AllowedOnce)) \<and>
       (\<forall>e\<in>set entries. ds1 e = Some Undecided \<or> ds1 e = Some AllowedOnce)"
proof -
  let ?c1 = "c\<lparr>stdout := stdout c @ [AccessHeader] @ map (AccessEntry 1) entries\<rparr>"
  from operatorChoice_userAction [of chooseMatches ?c1 2 s1 ChooseAction chooseActions] b
  obtain c2 where c2: "userAction ChooseAction chooseActions chooseMatches ?c1 = (2, c2)"
    "stdin c2 = s1" by auto
  have ea': "entryAnswers (length entries) (stdin c2) = (answers, s2)"
    using ea(1) c2(2) by simp
  from unlockLoop_selected [OF ea' ea(2), of AllowedOnce decisions]
  obtain ds1 c3 where l: "unlockLoop AllowSelected AllowedOnce entries decisions c2 = (True, ds1, c3)"
    "stdin c3 = s2"
    "\<forall>k<length entries. entries ! k \<notin> set (drop (Suc k) entries) \<longrightarrow>
            ds1 (entries ! k) = Some (if answers ! k \<noteq> 0 then Undecided else AllowedOnce)"
    "\<forall>e\<in>set entries. ds1 e = Some Undecided \<or> ds1 e = Some AllowedOnce"
    by blast
  from operatorChoice_userAction [of yesNoMatches c3 r s3 "RememberAction AllowSelected" yesNoActions]
    r l(2)
  obtain c4 where c4: "userAction (RememberAction AllowSelected) yesNoActions yesNoMatches c3 = (r, c4)"
    by auto
  have "requestEntriesUnlock entries decisions c =
       (if r = 0 then (True, rememberLoop Allowed entries ds1, Undecided, c4)
        else if r = 1 then (True, ds1, Undecided, c4)
        else (False, ds1, Undecided, c4))"
    using requestEntriesUnlock_chosen [OF c2(1) _ l(1) c4, of Allowed Undecided] by simp
  with l(3,4) show ?thesis by blast
qed

lemma unlock_selected_decisions:
  assumes h: "operatorChoice chooseMatches (stdin c) = (2, s1) \<and>
    entryAnswers (length entries) s1 = (answers, s2) \<and> - 1 \<notin> set answers \<and>
    operatorChoice yesNoMatches s2 = (r, s3) \<and> (r = 0 \<or> r = 1)"
  shows "\<exists>ds c'. requestEntriesUnlock entries decisions c = (True, ds, Undecided, c') \<and>
         (\<forall>k<length entries. entries ! k \<notin> set (drop (Suc k) entries) \<longrightarrow>
            (answers ! k = 1 \<longrightarrow> ds (entries ! k) = Some Undecided) \<and>
            (answers ! k = 0 \<and> r = 1 \<longrightarrow> ds (entries ! k) = Some AllowedOnce) \<and>
            (answers ! k = 0 \<and> r = 0 \<longrightarrow> ds (entries ! k) = Some Allowed)) \<and>
         (\<forall>e\<in>set entries. ds e \<noteq> Some Denied \<and> ds e \<noteq> Some DeniedOnce)"
proof -
  from unlock_selected_run [of c s1 entries answers s2 r s3 decisions] h
  obtain ds1 c4 where run: "requestEntriesUnlock entries decisions c =
       (if r = 0 then (True, rememberLoop Allowed entries ds1, Undecided, c4)
        else if r = 1 then (True, ds1, Undecided, c4)
        else (False, ds1, Undecided, c4))"
    and last: "\<forall>k<length entries. entries ! k \<notin> set (drop (Suc k) entries) \<longrightarrow>
            ds1 (entries ! k) = Some (if answers ! k \<noteq> 0 then Undecided else AllowedOnce)"
    and vals: "\<forall>e\<in>set entries. ds1 e = Some Undecided \<or> ds1 e = Some AllowedOnce"
    by blast
  let ?ds = "if r = 0 then rememberLoop Allowed entries ds1 else ds1"
  have res: "requestEntriesUnlock entries decisions c = (True, ?ds, Undecided, c4)"
    using run h by auto
  have ds: "?ds e = (if r = 0 \<and> ds1 e = Some AllowedOnce then Some Allowed else ds1 e)"
    if "e \<in> set entries" for e
    using vals that by (auto simp: rememberLoop_apply valueOf_def)
  have a: "\<forall>k<length entries. entries ! k \<notin> set (drop (Suc k) entries) \<longrightarrow>
            (answers ! k = 1 \<longrightarrow> ?ds (entries ! k) = Some Undecided) \<and>
            (answers ! k = 0 \<and> r = 1 \<longrightarrow> ?ds (entries ! k) = Some AllowedOnce) \<and>
            (answers ! k = 0 \<and> r = 0 \<longrightarrow> ?ds (entries ! k) = Some Allowed)"
  proof (intro allI impI)
    fix k assume k: "k < length entries" and l: "entries ! k \<notin> set (drop (Suc k) entries)"
    from last k l
    have v: "ds1 (entries ! k) = Some (if answers ! k \<noteq> 0 then Undecided else AllowedOnce)"
      by blast
    have m: "entries ! k \<in> set entries" using k by simp
    show "(answers ! k = 1 \<longrightarrow> ?ds (entries ! k) = Some Undecided) \<and>
            (answers ! k = 0 \<and> r = 1 \<longrightarrow> ?ds (entries ! k) = Some AllowedOnce) \<and>
            (answers ! k = 0 \<and> r = 0 \<longrightarrow> ?ds (entries ! k) = Some Allowed)"
      unfolding ds [OF m] v by simp
  qed
  have b: "\<forall>e\<in>set entries. ?ds e \<noteq> Some Denied \<and> ?ds e \<noteq> Some DeniedOnce"
  proof
    fix e assume m: "e \<in> set entries"
    with vals have "ds1 e = Some Undecided \<or> ds1 e = Some AllowedOnce" by blast
    then show "?ds e \<noteq> Some Denied \<and> ?ds e \<noteq> Some DeniedOnce"
      unfolding ds [OF m] by auto
  qed
  from res a b show ?thesis
    by blast
qed

text \<open>
  Claim C4.  With "Allow Selected", all per-entry questions answered and the remember question
  answered: an entry whose (last) question was answered "no" has the decision \<open>Undecided\<close>; an
  entry answered "yes" has \<open>AllowedOnce\<close> when remember is "no" (and \<open>Allowed\<close> when it is
  "yes"); no requested entry has \<open>Denied\<close> or \<open>DeniedOnce\<close>; \<open>forFutureEntries\<close> is
  \<open>Undecided\<close>.  In particular three distinct entries answered yes, no, yes with remember "no"
  get \<open>AllowedOnce\<close>, \<open>Undecided\<close>, \<open>AllowedOnce\<close>.
\<close>

theorem unlock_allow_selected:
  "(operatorChoice chooseMatches (stdin c) = (2, s1) \<and>
    entryAnswers (length entries) s1 = (answers, s2) \<and> - 1 \<notin> set answers \<and>
    operatorChoice yesNoMatches s2 = (r, s3) \<and> (r = 0 \<or> r = 1) \<longrightarrow>
      (\<exists>ds c'. requestEntriesUnlock entries decisions c = (True, ds, Undecided, c') \<and>
         (\<forall>k<length entries. entries ! k \<notin> set (drop (Suc k) entries) \<longrightarrow>
            (answers ! k = 1 \<longrightarrow> ds (entries ! k) = Some Undecided) \<and>
            (answers ! k = 0 \<and> r = 1 \<longrightarrow> ds (entries ! k) = Some AllowedOnce) \<and>
            (answers ! k = 0 \<and> r = 0 \<longrightarrow> ds (entries ! k) = Some Allowed)) \<and>
         (\<forall>e\<in>set entries. ds e \<noteq> Some Denied \<and> ds e \<noteq> Some DeniedOnce)))
   \<and> (distinct [e1, e2, e3] \<and> operatorChoice chooseMatches (stdin c) = (2, s1) \<and>
       entryAnswers 3 s1 = ([0, 1, 0], s2) \<and> operatorChoice yesNoMatches s2 = (1, s3) \<longrightarrow>
      (\<exists>ds c'. requestEntriesUnlock [e1, e2, e3] decisions c = (True, ds, Undecided, c') \<and>
         ds e1 = Some AllowedOnce \<and> ds e2 = Some Undecided \<and> ds e3 = Some AllowedOnce))"
proof (intro conjI impI)
  assume "operatorChoice chooseMatches (stdin c) = (2, s1) \<and>
    entryAnswers (length entries) s1 = (answers, s2) \<and> - 1 \<notin> set answers \<and>
    operatorChoice yesNoMatches s2 = (r, s3) \<and> (r = 0 \<or> r = 1)"
  then show "\<exists>ds c'. requestEntriesUnlock entries decisions c = (True, ds, Undecided, c') \<and>
         (\<forall>k<length entries. entries ! k \<notin> set (drop (Suc k) entries) \<longrightarrow>
            (answers ! k = 1 \<longrightarrow> ds (entries ! k) = Some Undecided) \<and>
            (answers ! k = 0 \<and> r = 1 \<longrightarrow> ds (entries ! k) = Some AllowedOnce) \<and>
            (answers ! k = 0 \<and> r = 0 \<longrightarrow> ds (entries ! k) = Some Allowed)) \<and>
         (\<forall>e\<in>set entries. ds e \<noteq> Some Denied \<and> ds e \<noteq> Some DeniedOnce)"
    by (rule unlock_selected_decisions)
next
  assume h: "distinct [e1, e2, e3] \<and> operatorChoice chooseMatches (stdin c) = (2, s1) \<and>
       entryAnswers 3 s1 = ([0, 1, 0], s2) \<and> operatorChoice yesNoMatches s2 = (1, s3)"
  have len: "length [e1, e2, e3] = 3" by simp
  have "operatorChoice chooseMatches (stdin c) = (2, s1) \<and>
    entryAnswers (length [e1, e2, e3]) s1 = ([0, 1, 0], s2) \<and> - 1 \<notin> set [0, 1, 0 :: int] \<and>
    operatorChoice yesNoMatches s2 = (1, s3) \<and> ((1::int) = 0 \<or> (1::int) = 1)"
    unfolding len using h by simp
  from unlock_selected_decisions [OF this, of decisions]
  obtain ds c' where run: "requestEntriesUnlock [e1, e2, e3] decisions c = (True, ds, Undecided, c')"
    and last: "\<forall>k<length [e1, e2, e3]. [e1, e2, e3] ! k \<notin> set (drop (Suc k) [e1, e2, e3]) \<longrightarrow>
            ([0, 1, 0 :: int] ! k = 1 \<longrightarrow> ds ([e1, e2, e3] ! k) = Some Undecided) \<and>
            ([0, 1, 0 :: int] ! k = 0 \<and> (1::int) = 1 \<longrightarrow> ds ([e1, e2, e3] ! k) = Some AllowedOnce) \<and>
            ([0, 1, 0 :: int] ! k = 0 \<and> (1::int) = 0 \<longrightarrow> ds ([e1, e2, e3] ! k) = Some Allowed)"
    by blast
  from last [rule_format, of 0] last [rule_format, of 1] last [rule_format, of 2] h
  have "ds e1 = Some AllowedOnce \<and> ds e2 = Some Undecided \<and> ds e3 = Some AllowedOnce"
    by simp
  with run show "\<exists>ds c'. requestEntriesUnlock [e1, e2, e3] decisions c = (True, ds, Undecided, c') \<and>
         ds e1 = Some AllowedOnce \<and> ds e2 = Some Undecided \<and> ds e3 = Some AllowedOnce"
    by blast
qed


lemma unlock_cancelled_result:
  assumes f: "fst (requestEntriesUnlock entries decisions c) = False"
  shows "\<exists>ds c'. requestEntriesUnlock entries decisions c = (False, ds, Undecided, c') \<and>
          (\<forall>e. ds e = decisions e \<or> ds e = Some Undecided \<or> ds e = Some AllowedOnce \<or>
               ds e = Some DeniedOnce)"
proof -
  let ?c1 = "c\<lparr>stdout := stdout c @ [AccessHeader] @ map (AccessEntry 1) entries\<rparr>"
  obtain b c2 where c2: "userAction ChooseAction chooseActions chooseMatches ?c1 = (b, c2)"
    by (cases "userAction ChooseAction chooseActions chooseMatches ?c1")
  show ?thesis
  proof (cases "b = 0 \<or> b = 1 \<or> b = 2")
    case False
    then have "requestEntriesUnlock entries decisions c = (False, decisions, Undecided, c2)"
      by (intro requestEntriesUnlock_rejected [OF c2]) auto
    then show ?thesis by simp
  next
    case True
    then obtain action once durable future where act:
      "b = 0 \<and> action = AllowAll \<and> once = AllowedOnce \<and> durable = Allowed \<and> future = Allowed \<or>
       b = 1 \<and> action = DenyAll \<and> once = DeniedOnce \<and> durable = Denied \<and> future = Denied \<or>
       b = 2 \<and> action = AllowSelected \<and> once = AllowedOnce \<and> durable = Allowed \<and> future = Undecided"
      by blast
    obtain ok ds1 c3 where l: "unlockLoop action once entries decisions c2 = (ok, ds1, c3)"
      by (cases "unlockLoop action once entries decisions c2")
    obtain r c4 where c4: "userAction (RememberAction action) yesNoActions yesNoMatches c3 = (r, c4)"
      by (cases "userAction (RememberAction action) yesNoActions yesNoMatches c3")
    note res = requestEntriesUnlock_chosen [OF c2 act l c4]
    from unlockLoop_writes [OF l]
    have w: "\<forall>e. ds1 e = decisions e \<or> ds1 e = Some Undecided \<or> ds1 e = Some once" .
    have once: "once = AllowedOnce \<or> once = DeniedOnce" using act by blast
    have writes: "\<forall>e. ds1 e = decisions e \<or> ds1 e = Some Undecided \<or> ds1 e = Some AllowedOnce \<or>
               ds1 e = Some DeniedOnce"
    proof
      fix e
      from w have "ds1 e = decisions e \<or> ds1 e = Some Undecided \<or> ds1 e = Some once" by blast
      with once show "ds1 e = decisions e \<or> ds1 e = Some Undecided \<or> ds1 e = Some AllowedOnce \<or>
               ds1 e = Some DeniedOnce" by blast
    qed
    show ?thesis
    proof (cases ok)
      case False
      with res have "requestEntriesUnlock entries decisions c = (False, ds1, Undecided, c3)"
        by simp
      with writes show ?thesis by blast
    next
      case True
      with res f have "r \<noteq> 0" "r \<noteq> 1" by auto
      with res True have "requestEntriesUnlock entries decisions c = (False, ds1, Undecided, c4)"
        by simp
      with writes show ?thesis by blast
    qed
  qed
qed

lemma unlock_cancelled_at_choice:
  assumes "operatorChoice chooseMatches (stdin c) = (- 1, s1)"
  shows "\<exists>c'. requestEntriesUnlock entries decisions c = (False, decisions, Undecided, c')"
proof -
  let ?c1 = "c\<lparr>stdout := stdout c @ [AccessHeader] @ map (AccessEntry 1) entries\<rparr>"
  from operatorChoice_userAction [of chooseMatches ?c1 "- 1" s1 ChooseAction chooseActions] assms
  obtain c2 where c2: "userAction ChooseAction chooseActions chooseMatches ?c1 = (- 1, c2)"
    by auto
  have "requestEntriesUnlock entries decisions c = (False, decisions, Undecided, c2)"
    by (rule requestEntriesUnlock_rejected [OF c2]) simp_all
  then show ?thesis by blast
qed

lemma unlock_cancelled_at_entry:
  assumes b: "operatorChoice chooseMatches (stdin c) = (2, s1)"
    and ea: "entryAnswers (length entries) s1 = (answers, s2)" "- 1 \<in> set answers"
  shows "fst (requestEntriesUnlock entries decisions c) = False"
proof -
  let ?c1 = "c\<lparr>stdout := stdout c @ [AccessHeader] @ map (AccessEntry 1) entries\<rparr>"
  from operatorChoice_userAction [of chooseMatches ?c1 2 s1 ChooseAction chooseActions] b
  obtain c2 where c2: "userAction ChooseAction chooseActions chooseMatches ?c1 = (2, c2)"
    "stdin c2 = s1" by auto
  have ea': "entryAnswers (length entries) (stdin c2) = (answers, s2)"
    using ea(1) c2(2) by simp
  obtain ok ds1 c3 where l: "unlockLoop AllowSelected AllowedOnce entries decisions c2 = (ok, ds1, c3)"
    by (cases "unlockLoop AllowSelected AllowedOnce entries decisions c2")
  from unlockLoop_cancelled [OF ea' ea(2), of AllowedOnce decisions] l have ok: "\<not> ok" by simp
  obtain r c4 where c4: "userAction (RememberAction AllowSelected) yesNoActions yesNoMatches c3 = (r, c4)"
    by (cases "userAction (RememberAction AllowSelected) yesNoActions yesNoMatches c3")
  show ?thesis
    using requestEntriesUnlock_chosen [OF c2(1) _ l c4, of Allowed Undecided] ok by simp
qed

lemma unlock_cancelled_at_remember_all:
  assumes b: "operatorChoice chooseMatches (stdin c) = (b, s1)" "b = 0 \<or> b = 1"
    and r: "operatorChoice yesNoMatches s1 = (- 1, s3)"
  shows "fst (requestEntriesUnlock entries decisions c) = False"
proof -
  let ?c1 = "c\<lparr>stdout := stdout c @ [AccessHeader] @ map (AccessEntry 1) entries\<rparr>"
  from operatorChoice_userAction [of chooseMatches ?c1 b s1 ChooseAction chooseActions] b(1)
  obtain c2 where c2: "userAction ChooseAction chooseActions chooseMatches ?c1 = (b, c2)"
    "stdin c2 = s1" by auto
  from b(2) obtain action once durable where act:
      "b = 0 \<and> action = AllowAll \<and> once = AllowedOnce \<and> durable = Allowed \<and> durable = Allowed \<or>
       b = 1 \<and> action = DenyAll \<and> once = DeniedOnce \<and> durable = Denied \<and> durable = Denied \<or>
       b = 2 \<and> action = AllowSelected \<and> once = AllowedOnce \<and> durable = Allowed \<and> durable = Undecided"
    by blast
  with b(2) have ne: "action \<noteq> AllowSelected" by auto
  from operatorChoice_userAction [of yesNoMatches c2 "- 1" s3 "RememberAction action" yesNoActions]
    r c2(2)
  obtain c4 where c4: "userAction (RememberAction action) yesNoActions yesNoMatches c2 = (- 1, c4)"
    by auto
  show ?thesis
    using requestEntriesUnlock_chosen [OF c2(1) act unlockLoop_all [OF ne] c4] by simp
qed

lemma unlock_cancelled_at_remember_selected:
  assumes "operatorChoice chooseMatches (stdin c) = (2, s1)"
    and "entryAnswers (length entries) s1 = (answers, s2)" "- 1 \<notin> set answers"
    and "operatorChoice yesNoMatches s2 = (- 1, s3)"
  shows "fst (requestEntriesUnlock entries decisions c) = False"
  using unlock_selected_run [OF assms, of decisions] by auto

text \<open>
  Claim C2.  When the input is exhausted at the batch choice, at one of the per-entry
  questions or at the remember question, \<open>requestEntriesUnlock\<close> returns false,
  \<open>forFutureEntries\<close> is \<open>Undecided\<close>, and every decision in the map is the one the caller
  passed in or one of \<open>Undecided\<close>, \<open>AllowedOnce\<close>, \<open>DeniedOnce\<close>: no durable grant or denial
  has been written.  When the input is exhausted at the batch choice the map is unchanged.
\<close>

theorem unlock_cancelled:
  "(operatorChoice chooseMatches (stdin c) = (- 1, s1) \<longrightarrow>
      (\<exists>c'. requestEntriesUnlock entries decisions c = (False, decisions, Undecided, c')))
   \<and> (operatorChoice chooseMatches (stdin c) = (- 1, s1)
       \<or> operatorChoice chooseMatches (stdin c) = (2, s1) \<and>
          entryAnswers (length entries) s1 = (answers, s2) \<and> - 1 \<in> set answers
       \<or> operatorChoice chooseMatches (stdin c) = (b, s1) \<and> (b = 0 \<or> b = 1) \<and>
          operatorChoice yesNoMatches s1 = (- 1, s3)
       \<or> operatorChoice chooseMatches (stdin c) = (2, s1) \<and>
          entryAnswers (length entries) s1 = (answers, s2) \<and> - 1 \<notin> set answers \<and>
          operatorChoice yesNoMatches s2 = (- 1, s3)
       \<longrightarrow>
      (\<exists>ds c'. requestEntriesUnlock entries decisions c = (False, ds, Undecided, c') \<and>
          (\<forall>e. ds e = decisions e \<or> ds e = Some Undecided \<or> ds e = Some AllowedOnce \<or>
               ds e = Some DeniedOnce)))"
proof (intro conjI impI)
  assume "operatorChoice chooseMatches (stdin c) = (- 1, s1)"
  then show "\<exists>c'. requestEntriesUnlock entries decisions c = (False, decisions, Undecided, c')"
    by (rule unlock_cancelled_at_choice)
next
  assume h: "operatorChoice chooseMatches (stdin c) = (- 1, s1)
       \<or> operatorChoice chooseMatches (stdin c) = (2, s1) \<and>
          entryAnswers (length entries) s1 = (answers, s2) \<and> - 1 \<in> set answers
       \<or> operatorChoice chooseMatches (stdin c) = (b, s1) \<and> (b = 0 \<or> b = 1) \<and>
          operatorChoice yesNoMatches s1 = (- 1, s3)
       \<or> operatorChoice chooseMatches (stdin c) = (2, s1) \<and>
          entryAnswers (length entries) s1 = (answers, s2) \<and> - 1 \<notin> set answers \<and>
          operatorChoice yesNoMatches s2 = (- 1, s3)"
  have "fst (requestEntriesUnlock entries decisions c) = False"
    using h
  proof (elim disjE conjE)
    assume "operatorChoice chooseMatches (stdin c) = (- 1, s1)"
    from unlock_cancelled_at_choice [OF this, of entries decisions] show ?thesis by auto
  next
    assume "operatorChoice chooseMatches (stdin c) = (2, s1)"
      "entryAnswers (length entries) s1 = (answers, s2)" "- 1 \<in> set answers"
    then show ?thesis by (rule unlock_cancelled_at_entry)
  next
    assume "operatorChoice chooseMatches (stdin c) = (b, s1)" "b = 0"
      "operatorChoice yesNoMatches s1 = (- 1, s3)"
    then show ?thesis by (intro unlock_cancelled_at_remember_all [of c b s1 s3]) auto
  next
    assume "operatorChoice chooseMatches (stdin c) = (b, s1)" "b = 1"
      "operatorChoice yesNoMatches s1 = (- 1, s3)"
    then show ?thesis by (intro unlock_cancelled_at_remember_all [of c b s1 s3]) auto
  next
    assume "operatorChoice chooseMatches (stdin c) = (2, s1)"
      "entryAnswers (length entries) s1 = (answers, s2)" "- 1 \<notin> set answers"
      "operatorChoice yesNoMatches s2 = (- 1, s3)"
    then show ?thesis by (rule unlock_cancelled_at_remember_selected)
  qed
  then show "\<exists>ds c'. requestEntriesUnlock entries decisions c = (False, ds, Undecided, c') \<and>
          (\<forall>e. ds e = decisions e \<or> ds e = Some Undecided \<or> ds e = Some AllowedOnce \<or>
               ds e = Some DeniedOnce)"
    by (rule unlock_cancelled_result)
qed

text \<open>The definitions that evaluate the choice an input gives.\<close>

lemmas eval_choice = operatorChoice_def userAction_loop.simps eval_text
  chooseMatches_def yesNoMatches_def

theorem unlock_batch_choice_witness:
  "(\<exists>c'. requestEntriesUnlock [1, 2] Map.empty \<lparr>stdin = ''a y '', stdout = []\<rparr> =
      (True, (\<lambda>e. if e \<in> set [1, 2] then Some Allowed else Map.empty e), Allowed, c'))
   \<and> (\<exists>c'. requestEntriesUnlock [1, 2] Map.empty \<lparr>stdin = ''a n '', stdout = []\<rparr> =
      (True, (\<lambda>e. if e \<in> set [1, 2] then Some AllowedOnce else Map.empty e), Undecided, c'))
   \<and> (\<exists>c'. requestEntriesUnlock [1, 2] Map.empty \<lparr>stdin = ''d y '', stdout = []\<rparr> =
      (True, (\<lambda>e. if e \<in> set [1, 2] then Some Denied else Map.empty e), Denied, c'))"
  using unlock_batch_choice [where c = "\<lparr>stdin = ''a y '', stdout = []\<rparr>" and ?s1.0 = "'' y ''"
      and ?s2.0 = "'' ''" and entries = "[1, 2]" and decisions = Map.empty]
    unlock_batch_choice [where c = "\<lparr>stdin = ''a n '', stdout = []\<rparr>" and ?s1.0 = "'' n ''"
      and ?s2.0 = "'' ''" and entries = "[1, 2]" and decisions = Map.empty]
    unlock_batch_choice [where c = "\<lparr>stdin = ''d y '', stdout = []\<rparr>" and ?s1.0 = "'' y ''"
      and ?s2.0 = "'' ''" and entries = "[1, 2]" and decisions = Map.empty]
  by (simp add: eval_choice)

theorem unlock_allow_selected_witness:
  "(\<exists>ds c'. requestEntriesUnlock [10, 20, 30] Map.empty \<lparr>stdin = ''s y n y n '', stdout = []\<rparr> =
        (True, ds, Undecided, c') \<and>
      ds 10 = Some AllowedOnce \<and> ds 20 = Some Undecided \<and> ds 30 = Some AllowedOnce)"
  using unlock_allow_selected [where c = "\<lparr>stdin = ''s y n y n '', stdout = []\<rparr>"
      and ?s1.0 = "'' y n y n ''" and ?s2.0 = "'' n ''" and ?s3.0 = "'' ''"
      and ?e1.0 = 10 and ?e2.0 = 20 and ?e3.0 = 30 and decisions = Map.empty
      and entries = "[10, 20, 30]" and answers = "[0, 1, 0]" and r = 1]
  by (simp add: eval_choice eval_nat_numeral)

theorem unlock_cancelled_witness:
  "(\<exists>c'. requestEntriesUnlock [1, 2] Map.empty \<lparr>stdin = '' '', stdout = []\<rparr> =
      (False, Map.empty, Undecided, c'))
   \<and> (\<exists>ds c'. requestEntriesUnlock [1, 2] Map.empty \<lparr>stdin = ''s y '', stdout = []\<rparr> =
        (False, ds, Undecided, c') \<and>
      (\<forall>e. ds e = Map.empty e \<or> ds e = Some Undecided \<or> ds e = Some AllowedOnce \<or>
           ds e = Some DeniedOnce))
   \<and> (\<exists>ds c'. requestEntriesUnlock [1, 2] Map.empty \<lparr>stdin = ''a '', stdout = []\<rparr> =
        (False, ds, Undecided, c') \<and>
      (\<forall>e. ds e = Map.empty e \<or> ds e = Some Undecided \<or> ds e = Some AllowedOnce \<or>
           ds e = Some DeniedOnce))"
  using unlock_cancelled [where c = "\<lparr>stdin = '' '', stdout = []\<rparr>" and ?s1.0 = "[]"
      and entries = "[1, 2]" and decisions = Map.empty]
    unlock_cancelled [where c = "\<lparr>stdin = ''s y '', stdout = []\<rparr>" and ?s1.0 = "'' y ''"
      and ?s2.0 = "[]" and answers = "[0, - 1]" and entries = "[1, 2]" and decisions = Map.empty]
    unlock_cancelled [where c = "\<lparr>stdin = ''a '', stdout = []\<rparr>" and ?s1.0 = "'' ''"
      and ?s3.0 = "[]" and b = 0 and entries = "[1, 2]" and decisions = Map.empty]
  by (simp add: eval_choice eval_nat_numeral)

section \<open>Properties of the delete request\<close>

lemma filterBatch_set:
  "set (foldl (\<lambda>refs e. removeAll e refs) refs batch) = set refs - set batch"
  by (induction batch arbitrary: refs) auto

lemma replaceAll_store:
  "present (foldl (\<lambda>s ref. replaceReferencesWithValues ref entry s) st refs) = present st \<and>
   recycled (foldl (\<lambda>s ref. replaceReferencesWithValues ref entry s) st refs) = recycled st \<and>
   (\<forall>r. set (placeholders (foldl (\<lambda>s ref. replaceReferencesWithValues ref entry s) st refs) r)
          \<subseteq> set (placeholders st r)) \<and>
   (\<forall>r\<in>set refs.
      entry \<notin> set (placeholders (foldl (\<lambda>s ref. replaceReferencesWithValues ref entry s) st refs) r))"
proof (induction refs arbitrary: st)
  case Nil
  then show ?case by simp
next
  case (Cons x refs)
  let ?st = "replaceReferencesWithValues x entry st"
  let ?f = "foldl (\<lambda>s ref. replaceReferencesWithValues ref entry s) ?st refs"
  from Cons.IH [of ?st]
  have p: "present ?f = present ?st" and r: "recycled ?f = recycled ?st"
    and sub: "\<forall>r. set (placeholders ?f r) \<subseteq> set (placeholders ?st r)"
    and gone: "\<forall>r\<in>set refs. entry \<notin> set (placeholders ?f r)"
    by blast+
  have st: "present ?st = present st" "recycled ?st = recycled st"
    "\<forall>r. set (placeholders ?st r) \<subseteq> set (placeholders st r)"
    "entry \<notin> set (placeholders ?st x)"
    by (auto simp: replaceReferencesWithValues_def)
  have "entry \<notin> set (placeholders ?f x)"
    using sub st(4) by blast
  with p r sub gone st show ?case
    by (simp del: replaceReferencesWithValues_def) blast
qed

lemma selectLoop_step:
  assumes "permanent \<and> referencesRecursive st entry \<noteq> []"
    and "operatorChoice referenceMatches (stdin c) = (choice, s2)"
  shows "\<exists>c2. stdin c2 = s2 \<and>
    selectLoop batch permanent (entry # entries) selectedEntries st c =
      (if choice = 0 then
         selectLoop batch permanent entries (selectedEntries @ [entry])
           (foldl (\<lambda>s ref. replaceReferencesWithValues ref entry s) st
              (foldl (\<lambda>refs e. removeAll e refs) (referencesRecursive st entry) batch)) c2
       else if choice = 1 then selectLoop batch permanent entries selectedEntries st c2
       else if choice = 2 then
         selectLoop batch permanent entries (selectedEntries @ [entry]) st c2
       else (None, st, c2))"
proof -
  let ?refs = "foldl (\<lambda>refs e. removeAll e refs) (referencesRecursive st entry) batch"
  let ?c1 = "c\<lparr>stdout := stdout c @ [ReferenceNotice entry (length ?refs)]\<rparr>"
  from operatorChoice_userAction [of referenceMatches ?c1 choice s2 ReplaceReferences referenceActions]
    assms(2)
  obtain c2 where c2: "userAction ReplaceReferences referenceActions referenceMatches ?c1 = (choice, c2)"
    "stdin c2 = s2" by auto
  have "selectLoop batch permanent (entry # entries) selectedEntries st c =
      (if choice = 0 then
         selectLoop batch permanent entries (selectedEntries @ [entry])
           (foldl (\<lambda>s ref. replaceReferencesWithValues ref entry s) st ?refs) c2
       else if choice = 1 then selectLoop batch permanent entries selectedEntries st c2
       else if choice = 2 then
         selectLoop batch permanent entries (selectedEntries @ [entry]) st c2
       else (None, st, c2))"
    using assms(1) by (simp add: Let_def c2(1))
  with c2(2) show ?thesis by blast
qed

lemma selectLoop_append:
  "selectLoop batch permanent (xs @ ys) sel st c =
     (case selectLoop batch permanent xs sel st c of
        (None, st1, c1) \<Rightarrow> (None, st1, c1)
      | (Some sel1, st1, c1) \<Rightarrow> selectLoop batch permanent ys sel1 st1 c1)"
proof (induction xs arbitrary: sel st c)
  case Nil
  then show ?case by simp
next
  case (Cons x xs)
  show ?case
  proof (cases "permanent \<and> referencesRecursive st x \<noteq> []")
    case False
    then show ?thesis using Cons.IH by auto
  next
    case True
    obtain choice s2 where oc: "operatorChoice referenceMatches (stdin c) = (choice, s2)"
      by (cases "operatorChoice referenceMatches (stdin c)")
    let ?refs = "foldl (\<lambda>refs e. removeAll e refs) (referencesRecursive st x) batch"
    let ?c1 = "c\<lparr>stdout := stdout c @ [ReferenceNotice x (length ?refs)]\<rparr>"
    obtain ch c2 where c2: "userAction ReplaceReferences referenceActions referenceMatches ?c1 = (ch, c2)"
      by (cases "userAction ReplaceReferences referenceActions referenceMatches ?c1")
    from True have pt: "permanent = True" by simp
    note ih = Cons.IH [unfolded pt]
    show ?thesis
      unfolding pt using True by (simp add: Let_def c2 ih)
  qed
qed

lemma selectLoop_store:
  "selectLoop batch permanent entries sel st c = (res, st1, c1) \<Longrightarrow>
     present st1 = present st \<and> recycled st1 = recycled st \<and>
     (\<forall>r. set (placeholders st1 r) \<subseteq> set (placeholders st r))"
proof (induction entries arbitrary: sel st c)
  case Nil
  then show ?case by simp
next
  case (Cons x xs)
  show ?case
  proof (cases "permanent \<and> referencesRecursive st x \<noteq> []")
    case False
    with Cons.prems have "selectLoop batch permanent xs (sel @ [x]) st c = (res, st1, c1)"
      by auto
    from Cons.IH [OF this] show ?thesis .
  next
    case True
    let ?refs = "foldl (\<lambda>refs e. removeAll e refs) (referencesRecursive st x) batch"
    let ?st = "foldl (\<lambda>s ref. replaceReferencesWithValues ref x s) st ?refs"
    let ?c1 = "c\<lparr>stdout := stdout c @ [ReferenceNotice x (length ?refs)]\<rparr>"
    obtain ch c2 where c2: "userAction ReplaceReferences referenceActions referenceMatches ?c1 = (ch, c2)"
      by (cases "userAction ReplaceReferences referenceActions referenceMatches ?c1")
    from Cons.prems True c2
    have "ch = 0 \<and> selectLoop batch permanent xs (sel @ [x]) ?st c2 = (res, st1, c1)
        \<or> ch = 1 \<and> selectLoop batch permanent xs sel st c2 = (res, st1, c1)
        \<or> ch = 2 \<and> selectLoop batch permanent xs (sel @ [x]) st c2 = (res, st1, c1)
        \<or> st1 = st"
      by (auto simp: Let_def split: if_splits)
    then show ?thesis
    proof (elim disjE conjE)
      assume "selectLoop batch permanent xs (sel @ [x]) ?st c2 = (res, st1, c1)"
      from Cons.IH [OF this] replaceAll_store [of x st ?refs] show ?thesis
        by (metis subset_trans)
    next
      assume "selectLoop batch permanent xs sel st c2 = (res, st1, c1)"
      from Cons.IH [OF this] show ?thesis .
    next
      assume "selectLoop batch permanent xs (sel @ [x]) st c2 = (res, st1, c1)"
      from Cons.IH [OF this] show ?thesis .
    next
      assume "st1 = st"
      then show ?thesis by simp
    qed
  qed
qed

lemma selectLoop_selected:
  "selectLoop batch permanent entries sel st c = (Some selected, st1, c1) \<Longrightarrow>
     \<exists>added. selected = sel @ added \<and> set added \<subseteq> set entries \<and>
       (distinct entries \<longrightarrow> distinct added)"
proof (induction entries arbitrary: sel st c)
  case Nil
  then show ?case by simp
next
  case (Cons x xs)
  have keep: "\<exists>added. selected = sel @ added \<and> set added \<subseteq> set (x # xs) \<and>
       (distinct (x # xs) \<longrightarrow> distinct added)"
    if "selectLoop batch permanent xs (sel @ [x]) st' c' = (Some selected, st1, c1)" for st' c'
  proof -
    from Cons.IH [OF that] obtain added where a: "selected = (sel @ [x]) @ added"
      "set added \<subseteq> set xs" "distinct xs \<longrightarrow> distinct added" by blast
    then have "selected = sel @ (x # added) \<and> set (x # added) \<subseteq> set (x # xs) \<and>
       (distinct (x # xs) \<longrightarrow> distinct (x # added))" by auto
    then show ?thesis by blast
  qed
  have skip: "\<exists>added. selected = sel @ added \<and> set added \<subseteq> set (x # xs) \<and>
       (distinct (x # xs) \<longrightarrow> distinct added)"
    if "selectLoop batch permanent xs sel st' c' = (Some selected, st1, c1)" for st' c'
  proof -
    from Cons.IH [OF that] obtain added where a: "selected = sel @ added"
      "set added \<subseteq> set xs" "distinct xs \<longrightarrow> distinct added" by blast
    then have "selected = sel @ added \<and> set added \<subseteq> set (x # xs) \<and>
       (distinct (x # xs) \<longrightarrow> distinct added)" by auto
    then show ?thesis by blast
  qed
  show ?case
  proof (cases "permanent \<and> referencesRecursive st x \<noteq> []")
    case False
    with Cons.prems have "selectLoop batch permanent xs (sel @ [x]) st c = (Some selected, st1, c1)"
      by auto
    then show ?thesis by (rule keep)
  next
    case True
    let ?refs = "foldl (\<lambda>refs e. removeAll e refs) (referencesRecursive st x) batch"
    let ?st = "foldl (\<lambda>s ref. replaceReferencesWithValues ref x s) st ?refs"
    let ?c1 = "c\<lparr>stdout := stdout c @ [ReferenceNotice x (length ?refs)]\<rparr>"
    obtain ch c2 where c2: "userAction ReplaceReferences referenceActions referenceMatches ?c1 = (ch, c2)"
      by (cases "userAction ReplaceReferences referenceActions referenceMatches ?c1")
    from Cons.prems True c2
    have "selectLoop batch permanent xs (sel @ [x]) ?st c2 = (Some selected, st1, c1)
        \<or> selectLoop batch permanent xs sel st c2 = (Some selected, st1, c1)
        \<or> selectLoop batch permanent xs (sel @ [x]) st c2 = (Some selected, st1, c1)"
      by (auto simp: Let_def split: if_splits)
    then show ?thesis
      using keep skip by blast
  qed
qed

lemma removeLoop_store:
  "set (present (removeLoop permanent sel st)) = set (present st) - set sel \<and>
   placeholders (removeLoop permanent sel st) = placeholders st"
  unfolding removeLoop_def
  by (induction sel arbitrary: st) (auto simp: deleteEntry_def recycleEntry_def)


text \<open>
  Claim C10.  Called with an empty list of entries, \<open>requestEntriesRemove\<close> returns 0 and
  leaves the store and the console as they are: nothing is printed and no input is read,
  whatever the flag \<open>permanent\<close> and the setting \<open>confirmDeleteItem\<close>.
\<close>

theorem remove_empty:
  "requestEntriesRemove confirmDeleteItem [] permanent st c = (0, st, c)"
  by (simp add: requestEntriesRemove_def)

lemma requestEntriesRemove_count:
  assumes r: "requestEntriesRemove confirmDeleteItem entries permanent st c = (n, st', c')"
    and d: "distinct entries" and sub: "set entries \<subseteq> set (present st)"
  shows "n = card (set (present st) - set (present st'))"
proof (cases "entries = []")
  case True
  with r show ?thesis by (simp add: requestEntriesRemove_def)
next
  case False
  obtain confirmed c1 where g: "(if confirmDeleteItem then confirmDeleteEntries entries permanent c
               else (False, c)) = (confirmed, c1)"
    by (cases "if confirmDeleteItem then confirmDeleteEntries entries permanent c else (False, c)")
  show ?thesis
  proof (cases confirmed)
    case True
    with r False g show ?thesis by (simp add: requestEntriesRemove_def)
  next
    case nc: False
    obtain res st1 c2 where l: "selectLoop entries permanent entries [] st c1 = (res, st1, c2)"
      by (cases "selectLoop entries permanent entries [] st c1")
    from selectLoop_store [OF l] have p: "present st1 = present st" by simp
    show ?thesis
    proof (cases res)
      case None
      with r False g nc l p show ?thesis by (simp add: requestEntriesRemove_def)
    next
      case (Some selected)
      with r False g nc l have n: "n = length selected"
        and st': "st' = removeLoop permanent selected st1"
        by (simp_all add: requestEntriesRemove_def)
      from selectLoop_selected [OF l [unfolded Some]] d
      have sel: "set selected \<subseteq> set entries" "distinct selected" by auto
      have "set (present st') = set (present st) - set selected"
        unfolding st' using removeLoop_store [of permanent selected st1] p by simp
      then have "set (present st) - set (present st') = set selected"
        using sel(1) sub by auto
      with n sel(2) show ?thesis by (simp add: distinct_card)
    qed
  qed
qed

lemma remove_skip:
  assumes d: "distinct (pre @ e # post)"
    and g: "(if confirmDeleteItem then confirmDeleteEntries (pre @ e # post) True c0
          else (False, c0)) = (False, c)"
    and pre: "selectLoop (pre @ e # post) True pre [] st c = (Some sel1, st1, c1)"
    and refs: "referencesRecursive st1 e \<noteq> []"
    and oc: "operatorChoice referenceMatches (stdin c1) = (1, s2)"
    and full: "selectLoop (pre @ e # post) True (pre @ e # post) [] st c = (Some selected, st2, c2)"
  shows "e \<notin> set selected \<and> set sel1 \<subseteq> set selected \<and>
     (\<exists>c3. stdin c3 = s2 \<and>
        selectLoop (pre @ e # post) True post sel1 st1 c3 = (Some selected, st2, c2)) \<and>
     requestEntriesRemove confirmDeleteItem (pre @ e # post) True st c0 =
       (length selected, removeLoop True selected st2, c2) \<and>
     set (present (removeLoop True selected st2)) = set (present st) - set selected"
proof -
  let ?batch = "pre @ e # post"
  have "selectLoop ?batch True ?batch [] st c = selectLoop ?batch True (e # post) sel1 st1 c1"
    using selectLoop_append [of ?batch True pre "e # post" "[]" st c] pre by simp
  moreover from selectLoop_step [of True st1 e c1 1 s2 ?batch post sel1] refs oc
  obtain c3 where c3: "stdin c3 = s2"
    "selectLoop ?batch True (e # post) sel1 st1 c1 = selectLoop ?batch True post sel1 st1 c3"
    by auto
  ultimately have rest: "selectLoop ?batch True post sel1 st1 c3 = (Some selected, st2, c2)"
    using full by simp
  from selectLoop_selected [OF rest] obtain added where
    a: "selected = sel1 @ added" "set added \<subseteq> set post" by blast
  from selectLoop_selected [OF pre] have s1: "set sel1 \<subseteq> set pre" by auto
  have e: "e \<notin> set selected"
    using a s1 d by auto
  have run: "requestEntriesRemove confirmDeleteItem ?batch True st c0 =
       (length selected, removeLoop True selected st2, c2)"
    unfolding requestEntriesRemove_def g using full by simp
  from selectLoop_store [OF full] have "present st2 = present st" by simp
  then have "set (present (removeLoop True selected st2)) = set (present st) - set selected"
    using removeLoop_store [of True selected st2] by simp
  with e a(1) c3(1) rest run show ?thesis by auto
qed

lemma remove_overwrite:
  assumes pre: "selectLoop batch True pre sel st c = (Some sel1, st1, c1)"
    and refs: "referencesRecursive st1 e \<noteq> []"
    and oc: "operatorChoice referenceMatches (stdin c1) = (0, s2)"
  shows "\<exists>c3 st3. stdin c3 = s2 \<and>
        selectLoop batch True (pre @ e # post) sel st c =
          selectLoop batch True post (sel1 @ [e]) st3 c3 \<and>
        present st3 = present st \<and> recycled st3 = recycled st \<and>
        (\<forall>r\<in>set (referencesRecursive st1 e). r \<notin> set batch \<longrightarrow> e \<notin> set (placeholders st3 r))"
proof -
  let ?refs = "foldl (\<lambda>refs x. removeAll x refs) (referencesRecursive st1 e) batch"
  let ?st3 = "foldl (\<lambda>s ref. replaceReferencesWithValues ref e s) st1 ?refs"
  have "selectLoop batch True (pre @ e # post) sel st c = selectLoop batch True (e # post) sel1 st1 c1"
    using selectLoop_append [of batch True pre "e # post" sel st c] pre by simp
  moreover from selectLoop_step [of True st1 e c1 0 s2 batch post sel1] refs oc
  obtain c3 where c3: "stdin c3 = s2"
    "selectLoop batch True (e # post) sel1 st1 c1 = selectLoop batch True post (sel1 @ [e]) ?st3 c3"
    by auto
  ultimately have run: "selectLoop batch True (pre @ e # post) sel st c =
      selectLoop batch True post (sel1 @ [e]) ?st3 c3" by simp
  from selectLoop_store [OF pre] have p: "present st1 = present st" "recycled st1 = recycled st"
    by simp_all
  from replaceAll_store [of e st1 ?refs]
  have q: "present ?st3 = present st1" "recycled ?st3 = recycled st1"
    "\<forall>r\<in>set ?refs. e \<notin> set (placeholders ?st3 r)" by blast+
  have "\<forall>r\<in>set (referencesRecursive st1 e). r \<notin> set batch \<longrightarrow> e \<notin> set (placeholders ?st3 r)"
    using q(3) by (simp add: filterBatch_set)
  with c3(1) run p q(1,2) show ?thesis by auto
qed

text \<open>
  Claim C6, amended.  In a permanent request that has passed the confirmation and whose first
  loop runs to its end (no later prompt is cancelled): when the operator answers "Skip" at the
  reference prompt of an entry \<open>e\<close> of a batch without repetitions, \<open>e\<close> is not among the
  selected entries, the entries selected before stay selected, the rest of the batch is
  processed with the selection and the store unchanged, and the request removes exactly the
  selected entries from the store and returns their number.  When the operator answers
  "Overwrite", every referencing entry outside the batch (the computed reference set) has its
  placeholders for \<open>e\<close> rewritten, before the loop goes on and with the entries present and
  the recycled ones untouched.  The first loop never removes an entry and only takes
  placeholders away: all removals come after it.  For a batch of distinct entries of the store
  the returned count is the number of entries the request took out of the store.
\<close>

theorem remove_resolutions:
  "(distinct (pre @ e # post) \<and>
    (if confirmDeleteItem then confirmDeleteEntries (pre @ e # post) True c0
     else (False, c0)) = (False, c) \<and>
    selectLoop (pre @ e # post) True pre [] st c = (Some sel1, st1, c1) \<and>
    referencesRecursive st1 e \<noteq> [] \<and>
    operatorChoice referenceMatches (stdin c1) = (1, s2) \<and>
    selectLoop (pre @ e # post) True (pre @ e # post) [] st c = (Some selected, st2, c2) \<longrightarrow>
      e \<notin> set selected \<and> set sel1 \<subseteq> set selected \<and>
      (\<exists>c3. stdin c3 = s2 \<and>
         selectLoop (pre @ e # post) True post sel1 st1 c3 = (Some selected, st2, c2)) \<and>
      requestEntriesRemove confirmDeleteItem (pre @ e # post) True st c0 =
        (length selected, removeLoop True selected st2, c2) \<and>
      set (present (removeLoop True selected st2)) = set (present st) - set selected)
   \<and> (selectLoop batch True pre sel st c = (Some sel1, st1, c1) \<and>
       referencesRecursive st1 e \<noteq> [] \<and>
       operatorChoice referenceMatches (stdin c1) = (0, s2) \<longrightarrow>
      (\<exists>c3 st3. stdin c3 = s2 \<and>
         selectLoop batch True (pre @ e # post) sel st c =
           selectLoop batch True post (sel1 @ [e]) st3 c3 \<and>
         present st3 = present st \<and> recycled st3 = recycled st \<and>
         (\<forall>r\<in>set (referencesRecursive st1 e).
             r \<notin> set batch \<longrightarrow> e \<notin> set (placeholders st3 r))))
   \<and> (selectLoop batch permanent es sel st c = (res, st4, c4) \<longrightarrow>
        present st4 = present st \<and> recycled st4 = recycled st \<and>
        (\<forall>r. set (placeholders st4 r) \<subseteq> set (placeholders st r)))
   \<and> (requestEntriesRemove confirmDeleteItem entries permanent st c0 = (n, st', c') \<and>
       distinct entries \<and> set entries \<subseteq> set (present st) \<longrightarrow>
        n = card (set (present st) - set (present st')))"
proof (intro conjI impI)
  assume h: "distinct (pre @ e # post) \<and>
    (if confirmDeleteItem then confirmDeleteEntries (pre @ e # post) True c0
     else (False, c0)) = (False, c) \<and>
    selectLoop (pre @ e # post) True pre [] st c = (Some sel1, st1, c1) \<and>
    referencesRecursive st1 e \<noteq> [] \<and>
    operatorChoice referenceMatches (stdin c1) = (1, s2) \<and>
    selectLoop (pre @ e # post) True (pre @ e # post) [] st c = (Some selected, st2, c2)"
  note r = remove_skip [of pre e post confirmDeleteItem c0 c st sel1 st1 c1 s2 selected st2 c2]
  from h r show "e \<notin> set selected" by blast
  from h r show "set sel1 \<subseteq> set selected" by blast
  from h r show "\<exists>c3. stdin c3 = s2 \<and>
         selectLoop (pre @ e # post) True post sel1 st1 c3 = (Some selected, st2, c2)" by blast
  from h r show "requestEntriesRemove confirmDeleteItem (pre @ e # post) True st c0 =
        (length selected, removeLoop True selected st2, c2)" by blast
  from h r show "set (present (removeLoop True selected st2)) = set (present st) - set selected"
    by blast
next
  assume "selectLoop batch True pre sel st c = (Some sel1, st1, c1) \<and>
       referencesRecursive st1 e \<noteq> [] \<and>
       operatorChoice referenceMatches (stdin c1) = (0, s2)"
  then show "\<exists>c3 st3. stdin c3 = s2 \<and>
         selectLoop batch True (pre @ e # post) sel st c =
           selectLoop batch True post (sel1 @ [e]) st3 c3 \<and>
         present st3 = present st \<and> recycled st3 = recycled st \<and>
         (\<forall>r\<in>set (referencesRecursive st1 e).
             r \<notin> set batch \<longrightarrow> e \<notin> set (placeholders st3 r))"
    by (intro remove_overwrite) blast+
next
  assume l: "selectLoop batch permanent es sel st c = (res, st4, c4)"
  from selectLoop_store [OF l] show "present st4 = present st" by blast
  from selectLoop_store [OF l] show "recycled st4 = recycled st" by blast
  from selectLoop_store [OF l] show "\<forall>r. set (placeholders st4 r) \<subseteq> set (placeholders st r)"
    by blast
next
  assume "requestEntriesRemove confirmDeleteItem entries permanent st c0 = (n, st', c') \<and>
       distinct entries \<and> set entries \<subseteq> set (present st)"
  then show "n = card (set (present st) - set (present st'))"
    by (intro requestEntriesRemove_count) blast+
qed

text \<open>The definitions that evaluate a delete request on a given store and input.\<close>

lemmas eval_remove = requestEntriesRemove_def confirmDeleteEntries_def referencesRecursive_def
  replaceReferencesWithValues_def removeLoop_def deleteEntry_def recycleEntry_def
  userAction_def referenceMatches_def confirmMatches_def Let_def

text \<open>
  Claim C1 against the code.  With the setting on and a permanent request for one entry
  without references, the answer "Deny" at the confirmation, and also the end of the input
  there, leave the entry deleted and the count 1, while the answer "Allow" deletes nothing and
  returns 0: \<open>requestEntriesRemove\<close> returns 0 when \<open>confirmDeleteEntries\<close> is true, which is
  when the operator allowed.
\<close>

theorem remove_denied_still_deletes:
  "(case requestEntriesRemove True [1] True
           \<lparr>present = [1], recycled = [], placeholders = (\<lambda>r. [])\<rparr>
           \<lparr>stdin = ''d '', stdout = []\<rparr> of
      (n, st, c) \<Rightarrow> n = 1 \<and> present st = [])
   \<and> (case requestEntriesRemove True [1] True
           \<lparr>present = [1], recycled = [], placeholders = (\<lambda>r. [])\<rparr>
           \<lparr>stdin = [], stdout = []\<rparr> of
      (n, st, c) \<Rightarrow> n = 1 \<and> present st = [])
   \<and> (case requestEntriesRemove True [1] True
           \<lparr>present = [1], recycled = [], placeholders = (\<lambda>r. [])\<rparr>
           \<lparr>stdin = ''a '', stdout = []\<rparr> of
      (n, st, c) \<Rightarrow> n = 0 \<and> present st = [1])"
  by (simp add: eval_remove eval_choice)

text \<open>
  Claim C5 against the code.  Entry 2 refers to entry 1 and both are in the batch: the
  reference set of entry 1 without the batch is empty, yet the request prints the notice with
  0 references and asks the three-way question for entry 1, and the answer "Skip" keeps
  entry 1 in the store.  The test that there are references comes before the references of
  the batch are taken out.
\<close>

theorem remove_prompts_for_cohort_references:
  "foldl (\<lambda>refs e. removeAll e refs)
     (referencesRecursive \<lparr>present = [1, 2], recycled = [], placeholders = (\<lambda>r. [])(2 := [1])\<rparr> 1)
     [1, 2] = []
   \<and> (case requestEntriesRemove False [1, 2] True
           \<lparr>present = [1, 2], recycled = [], placeholders = (\<lambda>r. [])(2 := [1])\<rparr>
           \<lparr>stdin = ''s '', stdout = []\<rparr> of
      (n, st, c) \<Rightarrow>
        n = 1 \<and> present st = [1] \<and>
        stdout c = [ReferenceNotice 1 0, Question ReplaceReferences referenceActions])"
  by (simp add: eval_remove eval_choice)

theorem remove_resolutions_witness:
  "(1 \<notin> set [2::nat] \<and>
    requestEntriesRemove False ([] @ 1 # [2]) True
        \<lparr>present = [1, 2, 3], recycled = [], placeholders = (\<lambda>r. [])(3 := [1])\<rparr>
        \<lparr>stdin = ''s '', stdout = []\<rparr> =
      (length [2::nat],
       removeLoop True [2]
         \<lparr>present = [1, 2, 3], recycled = [], placeholders = (\<lambda>r. [])(3 := [1])\<rparr>,
       \<lparr>stdin = '' '',
        stdout = [ReferenceNotice 1 1, Question ReplaceReferences referenceActions]\<rparr>))
   \<and> (\<exists>c3 st3. stdin c3 = '' '' \<and>
         selectLoop [1, 2] True ([] @ 1 # [2]) []
           \<lparr>present = [1, 2, 3], recycled = [], placeholders = (\<lambda>r. [])(3 := [1])\<rparr>
           \<lparr>stdin = ''o '', stdout = []\<rparr> =
           selectLoop [1, 2] True [2] ([] @ [1]) st3 c3 \<and>
         present st3 =
           present \<lparr>present = [1, 2, 3], recycled = [], placeholders = (\<lambda>r. [])(3 := [1])\<rparr> \<and>
         recycled st3 =
           recycled \<lparr>present = [1, 2, 3], recycled = [], placeholders = (\<lambda>r. [])(3 := [1])\<rparr> \<and>
         (\<forall>r\<in>set (referencesRecursive
               \<lparr>present = [1, 2, 3], recycled = [], placeholders = (\<lambda>r. [])(3 := [1])\<rparr> 1).
             r \<notin> set [1, 2] \<longrightarrow> 1 \<notin> set (placeholders st3 r)))
   \<and> (1::nat) =
       card (set (present \<lparr>present = [1, 2, 3], recycled = [],
                           placeholders = (\<lambda>r. [])(3 := [1])\<rparr>)
             - set (present \<lparr>present = [1, 3], recycled = [],
                              placeholders = (\<lambda>r. [])(3 := [1])\<rparr>))"
proof -
  let ?st = "\<lparr>present = [1, 2, 3], recycled = [], placeholders = (\<lambda>r. [])(3 := [1::nat])\<rparr>"
  let ?st' = "\<lparr>present = [1, 3], recycled = [], placeholders = (\<lambda>r. [])(3 := [1::nat])\<rparr>"
  let ?cs = "\<lparr>stdin = ''s '', stdout = []\<rparr>"
  let ?co = "\<lparr>stdin = ''o '', stdout = []\<rparr>"
  let ?c2 = "\<lparr>stdin = '' '',
        stdout = [ReferenceNotice 1 1, Question ReplaceReferences referenceActions]\<rparr>"
  have refs: "referencesRecursive ?st 1 \<noteq> []"
    by (simp add: referencesRecursive_def)
  have skip: "distinct ([] @ 1 # [2::nat]) \<and>
    (if False then confirmDeleteEntries ([] @ 1 # [2]) True ?cs else (False, ?cs)) = (False, ?cs) \<and>
    selectLoop ([] @ 1 # [2]) True [] [] ?st ?cs = (Some [], ?st, ?cs) \<and>
    referencesRecursive ?st 1 \<noteq> [] \<and>
    operatorChoice referenceMatches (stdin ?cs) = (1, '' '') \<and>
    selectLoop ([] @ 1 # [2]) True ([] @ 1 # [2]) [] ?st ?cs = (Some [2], ?st, ?c2)"
    using refs by (simp add: eval_remove eval_choice)
  have over: "selectLoop [1, 2] True [] [] ?st ?co = (Some [], ?st, ?co) \<and>
       referencesRecursive ?st 1 \<noteq> [] \<and>
       operatorChoice referenceMatches (stdin ?co) = (0, '' '')"
    using refs by (simp add: eval_choice referenceMatches_def)
  have count: "requestEntriesRemove False [1, 2] True ?st ?cs = (1, ?st', ?c2) \<and>
       distinct [1, 2 :: nat] \<and> set [1, 2] \<subseteq> set (present ?st)"
    by (simp add: eval_remove eval_choice)
  note a = remove_resolutions [where pre = "[]" and e = 1 and post = "[2]",
      THEN conjunct1, rule_format, OF skip]
  note b = remove_resolutions [where pre = "[]" and e = 1 and post = "[2]",
      THEN conjunct2, THEN conjunct1, rule_format, OF over]
  note c = remove_resolutions [THEN conjunct2, THEN conjunct2, THEN conjunct2, rule_format,
      OF count]
  from a b c show ?thesis by blast
qed

text \<open>
  Claim C6, as stated, fails.  Entries 2 and 3 refer to entry 1, entry 4 refers to entry 2, and
  the batch is 1, 2.  With the answers "Overwrite" for entry 1 and "Skip" for entry 2, entry 3
  is rewritten but entry 2, a referencing entry inside the batch, is not: entry 1 is deleted
  and entry 2 stays in the store with its placeholder for entry 1.  And when entry 1 is
  answered "Skip" and the input ends at the prompt of entry 2, no entry of the batch is
  removed.
\<close>

theorem remove_overwrite_skips_batch_counterexample:
  "referencesRecursive
     \<lparr>present = [1, 2, 3, 4], recycled = [],
      placeholders = (\<lambda>r. [])(2 := [1], 3 := [1], 4 := [2])\<rparr> 1 = [2, 3]
   \<and> (case requestEntriesRemove False [1, 2] True
           \<lparr>present = [1, 2, 3, 4], recycled = [],
            placeholders = (\<lambda>r. [])(2 := [1], 3 := [1], 4 := [2])\<rparr>
           \<lparr>stdin = ''o s '', stdout = []\<rparr> of
        (n, st, c) \<Rightarrow>
          n = 1 \<and> present st = [2, 3, 4] \<and> placeholders st 2 = [1] \<and> placeholders st 3 = [])
   \<and> (case requestEntriesRemove False [1, 2] True
           \<lparr>present = [1, 2, 3, 4], recycled = [],
            placeholders = (\<lambda>r. [])(3 := [1], 4 := [2])\<rparr>
           \<lparr>stdin = ''s '', stdout = []\<rparr> of
        (n, st, c) \<Rightarrow> n = 0 \<and> present st = [1, 2, 3, 4])"
  by (simp add: eval_remove eval_choice)

section \<open>Properties of the line readers\<close>









end
